theory Spec2Isabelle
  imports Main "HOL-Library.Multiset"
begin

section \<open>Strings\<close>

text \<open>
  A Go string is read here as the sequence of its code points (runes), which is how the
  regexp package and \<^verbatim>\<open>range\<close> read a valid UTF-8 string. A rune is a natural number;
  ASCII literals are written with \<open>asc\<close>, other runes by their code point.
\<close>

type_synonym rune = nat
type_synonym str = "rune list"

definition asc :: "string \<Rightarrow> str" where
  "asc s = map of_char s"

definition LF :: rune where "LF = 10"
definition CR :: rune where "CR = 13"

text \<open>The runes of the annotations: U+FF5C, U+300A, U+300B, U+226A, U+226B.\<close>

definition BAR :: rune where "BAR = 0xFF5C"
definition LQ :: rune where "LQ = 0x300A"
definition RQ :: rune where "RQ = 0x300B"
definition LQ2 :: rune where "LQ2 = 0x226A"
definition RQ2 :: rune where "RQ2 = 0x226B"

text \<open>
  \<^verbatim>\<open>strings.HasPrefix\<close> and \<^verbatim>\<open>strings.ReplaceAll(s, old, new)\<close>: the occurrences of
  \<open>old\<close> are replaced from left to right without overlap; an empty \<open>old\<close> matches
  before every rune and at the end.
\<close>

fun HasPrefix :: "str \<Rightarrow> str \<Rightarrow> bool" where
  "HasPrefix s [] = True"
| "HasPrefix [] (p # ps) = False"
| "HasPrefix (x # xs) (p # ps) = (x = p \<and> HasPrefix xs ps)"

function strReplaceAll :: "str \<Rightarrow> str \<Rightarrow> str \<Rightarrow> str" where
  "strReplaceAll [] old new = (if old = [] then new else [])"
| "strReplaceAll (x # xs) old new =
     (if old = [] then new @ x # strReplaceAll xs old new
      else if HasPrefix (x # xs) old
        then new @ strReplaceAll (drop (length old) (x # xs)) old new
      else x # strReplaceAll xs old new)"
  by pat_completeness auto
termination
  by (relation "measure (\<lambda>(s, old, new). length s)") auto

section \<open>Regular expressions\<close>

text \<open>
  The patterns of the source are sequences of single-rune items: a rune class, or a rune
  class under \<^verbatim>\<open>*\<close>, \<^verbatim>\<open>+\<close> or \<^verbatim>\<open>?\<close> (greedy, or lazy when followed by
  \<^verbatim>\<open>?\<close>), with capture group marks. A compiled pattern is the list of its items.
  \<open>Dot\<close> is \<^verbatim>\<open>.\<close> without the \<^verbatim>\<open>s\<close> flag: every rune but line feed. \<open>OneOf\<close>
  is a literal or a bracket class, given by the runes it accepts; under \<^verbatim>\<open>(?i)\<close> a
  letter accepts the runes of its simple case folding orbit.
\<close>

datatype cls = Dot | OneOf "rune list"

datatype greed = Greedy | Lazy

datatype item =
    Ch cls
  | Star cls greed
  | Plus cls greed
  | Quest cls greed
  | GOpen nat
  | GClose nat

type_synonym regex = "item list"

fun accepts :: "cls \<Rightarrow> rune \<Rightarrow> bool" where
  "accepts Dot c = (c \<noteq> 10)"
| "accepts (OneOf cs) c = (c \<in> set cs)"

text \<open>
  The capture registers: for each group, the offsets (from the start of the match) where
  it opened and closed.
\<close>

type_synonym caps = "(nat \<times> nat \<times> nat) list"

fun capOpen :: "nat \<Rightarrow> nat \<Rightarrow> caps \<Rightarrow> caps" where
  "capOpen n k c = (n, k, k) # filter (\<lambda>e. fst e \<noteq> n) c"

fun capClose :: "nat \<Rightarrow> nat \<Rightarrow> caps \<Rightarrow> caps" where
  "capClose n k [] = []"
| "capClose n k ((m, a, b) # c) =
     (if m = n then (m, a, k) # c else (m, a, b) # capClose n k c)"

text \<open>
  \<open>rmatch p s k c\<close> matches the pattern \<open>p\<close> at the start of \<open>s\<close>, with \<open>k\<close>
  runes consumed so far, and returns the length of the match and the captures. It is
  the backtracking search whose first success is, by the documentation of the regexp
  package, the match that Go reports (leftmost-first): a greedy repetition tries one
  more rune before it tries the rest of the pattern, a lazy one the other way round.
\<close>

fun rmatch :: "regex \<Rightarrow> str \<Rightarrow> nat \<Rightarrow> caps \<Rightarrow> (nat \<times> caps) option" where
  "rmatch [] s k c = Some (k, c)"
| "rmatch (Ch cl # p) s k c =
     (case s of [] \<Rightarrow> None
      | x # xs \<Rightarrow> if accepts cl x then rmatch p xs (Suc k) c else None)"
| "rmatch (Star cl g # p) s k c =
     (if g = Greedy then
        (case (case s of [] \<Rightarrow> None
               | x # xs \<Rightarrow> if accepts cl x then rmatch (Star cl g # p) xs (Suc k) c else None) of
           Some r \<Rightarrow> Some r
         | None \<Rightarrow> rmatch p s k c)
      else
        (case rmatch p s k c of
           Some r \<Rightarrow> Some r
         | None \<Rightarrow>
            (case s of [] \<Rightarrow> None
             | x # xs \<Rightarrow> if accepts cl x then rmatch (Star cl g # p) xs (Suc k) c else None)))"
| "rmatch (Plus cl g # p) s k c =
     (case s of [] \<Rightarrow> None
      | x # xs \<Rightarrow> if accepts cl x then rmatch (Star cl g # p) xs (Suc k) c else None)"
| "rmatch (Quest cl g # p) s k c =
     (if g = Greedy then
        (case (case s of [] \<Rightarrow> None
               | x # xs \<Rightarrow> if accepts cl x then rmatch p xs (Suc k) c else None) of
           Some r \<Rightarrow> Some r
         | None \<Rightarrow> rmatch p s k c)
      else
        (case rmatch p s k c of
           Some r \<Rightarrow> Some r
         | None \<Rightarrow>
            (case s of [] \<Rightarrow> None
             | x # xs \<Rightarrow> if accepts cl x then rmatch p xs (Suc k) c else None)))"
| "rmatch (GOpen n # p) s k c = rmatch p s k (capOpen n k c)"
| "rmatch (GClose n # p) s k c = rmatch p s k (capClose n k c)"

text \<open>
  The number of capture groups of a pattern, and the submatch list of a match of length
  \<open>n\<close> at the start of \<open>s\<close>: the whole match, then the text of each group.
\<close>

fun isOpen :: "item \<Rightarrow> bool" where
  "isOpen (GOpen n) = True"
| "isOpen _ = False"

definition NumSubexp :: "regex \<Rightarrow> nat" where
  "NumSubexp re = length (filter isOpen re)"

fun capText :: "str \<Rightarrow> caps \<Rightarrow> nat \<Rightarrow> str" where
  "capText s [] n = []"
| "capText s ((m, a, b) # c) n =
     (if m = n then take (b - a) (drop a s) else capText s c n)"

definition submatches :: "regex \<Rightarrow> str \<Rightarrow> nat \<Rightarrow> caps \<Rightarrow> str list" where
  "submatches re s n c = take n s # map (capText s c) [1 ..< Suc (NumSubexp re)]"

text \<open>
  The leftmost match in \<open>s\<close>: the text before it, its submatch list, and the text after
  it.
\<close>

fun find :: "regex \<Rightarrow> str \<Rightarrow> (str \<times> str list \<times> str) option" where
  "find re [] =
     (case rmatch re [] 0 [] of
        None \<Rightarrow> None
      | Some (n, c) \<Rightarrow> Some ([], submatches re [] n c, []))"
| "find re (x # xs) =
     (case rmatch re (x # xs) 0 [] of
        Some (n, c) \<Rightarrow> Some ([], submatches re (x # xs) n c, drop n (x # xs))
      | None \<Rightarrow>
         (case find re xs of
            None \<Rightarrow> None
          | Some (pre, ms, rest) \<Rightarrow> Some (x # pre, ms, rest)))"

text \<open>
  \<^verbatim>\<open>re.FindStringSubmatch(s)\<close>: the submatch list of the leftmost match, or nil (the
  empty list) when there is none.
\<close>

definition FindStringSubmatch :: "regex \<Rightarrow> str \<Rightarrow> str list" where
  "FindStringSubmatch re s = (case find re s of None \<Rightarrow> [] | Some (pre, ms, rest) \<Rightarrow> ms)"

text \<open>
  The loop of the regexp package behind \<^verbatim>\<open>ReplaceAllString\<close> and
  \<^verbatim>\<open>ReplaceAllStringFunc\<close>. \<open>s\<close> is the text from the search position on,
  \<open>pend\<close> the text between the end of the last match and the search position, and
  \<open>start\<close> tells that the search position is 0. The replacement is not inserted for
  an empty match right after the previous match; after an empty match at the search
  position the search moves on by one rune.
\<close>

lemma find_rest_length:
  "find re s = Some (pre, ms, rest) \<Longrightarrow>
     length rest \<le> length s \<and> (pre \<noteq> [] \<or> hd ms \<noteq> [] \<longrightarrow> length rest < length s)"
proof (induction s arbitrary: pre ms rest)
  case Nil
  then show ?case by (auto simp: submatches_def split: option.splits)
next
  case (Cons x xs)
  show ?case
  proof (cases "rmatch re (x # xs) 0 []")
    case None
    with Cons.prems obtain pre' where f: "find re xs = Some (pre', ms, rest)"
      by (auto split: option.splits)
    from Cons.IH [OF f] show ?thesis by simp
  next
    case (Some r)
    with Cons.prems show ?thesis
      by (cases r) (auto simp: submatches_def)
  qed
qed

function replaceAll :: "regex \<Rightarrow> (str list \<Rightarrow> str) \<Rightarrow> bool \<Rightarrow> str \<Rightarrow> str \<Rightarrow> str" where
  "replaceAll re repl start pend s =
     (case find re s of
        None \<Rightarrow> pend @ s
      | Some (pre, ms, rest) \<Rightarrow>
          (let out = pend @ pre @ (if pend @ pre @ hd ms \<noteq> [] \<or> start then repl ms else [])
           in if pre = [] \<and> hd ms = [] then
                (case s of [] \<Rightarrow> out | x # xs \<Rightarrow> out @ replaceAll re repl False [x] xs)
              else out @ replaceAll re repl False [] rest))"
  by pat_completeness auto
termination
  by (relation "measure (\<lambda>(re, repl, start, pend, s). length s)")
     (auto dest: find_rest_length)

text \<open>
  \<^verbatim>\<open>re.ReplaceAllStringFunc(src, f)\<close> calls \<open>f\<close> on the text of each match.
\<close>

definition ReplaceAllStringFunc :: "regex \<Rightarrow> str \<Rightarrow> (str \<Rightarrow> str) \<Rightarrow> str" where
  "ReplaceAllStringFunc re src f = replaceAll re (\<lambda>ms. f (hd ms)) True [] src"

text \<open>
  \<^verbatim>\<open>re.ReplaceAllString(src, repl)\<close> expands the template \<open>repl\<close> at each match. A
  template is given parsed: literal text, and \<^verbatim>\<open>$n\<close> for the text of group \<open>n\<close>
  (empty when the pattern has no such group).
\<close>

datatype tpart = TLit str | TGroup nat

fun expand :: "tpart list \<Rightarrow> str list \<Rightarrow> str" where
  "expand [] ms = []"
| "expand (TLit t # ts) ms = t @ expand ts ms"
| "expand (TGroup n # ts) ms = (if n < length ms then ms ! n else []) @ expand ts ms"

definition ReplaceAllString :: "regex \<Rightarrow> str \<Rightarrow> tpart list \<Rightarrow> str" where
  "ReplaceAllString re src repl = replaceAll re (expand repl) True [] src"

text \<open>
  \<^verbatim>\<open>re.Split(s, 2)\<close> for a pattern that cannot match the empty text (the two patterns
  it is called with cannot): the text before the leftmost match and the text after it,
  or \<open>s\<close> alone when there is no match.
\<close>

definition Split2 :: "regex \<Rightarrow> str \<Rightarrow> str list" where
  "Split2 re s = (case find re s of None \<Rightarrow> [s] | Some (pre, ms, rest) \<Rightarrow> [pre, rest])"

section \<open>The conversion engine (html\_converter.go)\<close>

text \<open>Literals and letters of a pattern; under \<^verbatim>\<open>(?i)\<close> a letter accepts both cases.\<close>

definition lit :: "string \<Rightarrow> regex" where
  "lit s = map (\<lambda>c. Ch (OneOf [of_char c])) s"

text \<open>
  The simple case folding orbit of an ASCII rune: the letter in both cases, and, as
  Unicode folds them, U+017F with \<^verbatim>\<open>s\<close> and U+212A with \<^verbatim>\<open>k\<close>.
\<close>

definition fold_orbit :: "rune \<Rightarrow> rune list" where
  "fold_orbit c =
     (if 97 \<le> c \<and> c \<le> 122 then
        [c - 32, c] @ (if c = 115 then [0x17F] else if c = 107 then [0x212A] else [])
      else if 65 \<le> c \<and> c \<le> 90 then
        [c, c + 32] @ (if c = 83 then [0x17F] else if c = 75 then [0x212A] else [])
      else [c])"

definition liti :: "string \<Rightarrow> regex" where
  "liti s = map (\<lambda>c. Ch (OneOf (fold_orbit (of_char c)))) s"

record HTMLConverter =
  text0 :: str
  stripDecorationTag :: bool
  illustCurrentURL :: str
  illustGrepPattern :: "regex option"

text \<open>The default illustration pattern \<^verbatim>\<open><img.+?src="(?P<src>.+?)".*?>\<close>.\<close>

definition defaultIllustPattern :: regex where
  "defaultIllustPattern =
     lit ''<img'' @ [Plus Dot Lazy] @ lit ''src='' @ [Ch (OneOf [34])]
       @ [GOpen 1, Plus Dot Lazy, GClose 1] @ [Ch (OneOf [34])] @ [Star Dot Lazy] @ lit ''>''"

definition NewHTMLConverter :: "str \<Rightarrow> HTMLConverter" where
  "NewHTMLConverter t =
     \<lparr> text0 = t, stripDecorationTag = False, illustCurrentURL = [],
       illustGrepPattern = Some defaultIllustPattern \<rparr>"

text \<open>
  \<open>SetIllustSetting\<close>. \<^verbatim>\<open>regexp.Compile\<close> is a parameter: it gives the compiled
  pattern, or an error. The result is the error (if any) and the converter after the
  call.
\<close>

datatype conv_error = InvalidGrepPattern str

definition SetIllustSetting ::
  "(str \<Rightarrow> str + regex) \<Rightarrow> HTMLConverter \<Rightarrow> str \<Rightarrow> str \<Rightarrow> conv_error option \<times> HTMLConverter" where
  "SetIllustSetting compile h currentURL grepPattern =
     (let h1 = h\<lparr>illustCurrentURL := currentURL\<rparr>
      in if grepPattern \<noteq> [] then
           (case compile grepPattern of
              Inl err \<Rightarrow> (Some (InvalidGrepPattern err), h1)
            | Inr pattern \<Rightarrow> (None, h1\<lparr>illustGrepPattern := Some pattern\<rparr>))
         else (None, h1))"

definition SetStripDecorationTag :: "HTMLConverter \<Rightarrow> bool \<Rightarrow> HTMLConverter" where
  "SetStripDecorationTag h strip = h\<lparr>stripDecorationTag := strip\<rparr>"

text \<open>\<open>brToAozora\<close>: the patterns \<^verbatim>\<open>[\r\n]+\<close> and \<^verbatim>\<open><br.*?>\<close>.\<close>

definition brToAozora :: "str \<Rightarrow> str" where
  "brToAozora t =
     (let t1 = ReplaceAllString [Plus (OneOf [13, 10]) Greedy] t []
      in ReplaceAllString (lit ''<br'' @ [Star Dot Lazy] @ lit ''>'') t1 [TLit [10]])"

text \<open>\<open>pToAozora\<close>: the pattern \<^verbatim>\<open>(?i)\n?</p>\<close>.\<close>

definition pToAozora :: "str \<Rightarrow> str" where
  "pToAozora t = ReplaceAllString ([Quest (OneOf [10]) Greedy] @ liti ''</p>'') t [TLit [10]]"

text \<open>\<open>deleteTag\<close>: the pattern \<^verbatim>\<open><.+?>\<close>.\<close>

definition tagPattern :: regex where
  "tagPattern = lit ''<'' @ [Plus Dot Lazy] @ lit ''>''"

definition deleteTag :: "str \<Rightarrow> str" where
  "deleteTag t = ReplaceAllString tagPattern t []"

text \<open>
  \<open>rubyToAozora\<close>: the pattern \<^verbatim>\<open>(?i)<ruby>(.+?)</ruby>\<close>, and in the callback
  \<^verbatim>\<open>(?i)<rt>\<close> and \<^verbatim>\<open>(?i)<rp>\<close>. Indexing the submatch list at 1 and the parts at
  0 cannot fail: the callback only runs on the text of a match, which matches again
  (\<open>rubyCallback_index_in_range\<close> below), and a split has at least one part.
\<close>

definition rubyPattern :: regex where
  "rubyPattern = liti ''<ruby>'' @ [GOpen 1, Plus Dot Lazy, GClose 1] @ liti ''</ruby>''"

definition rubyCallback :: "str \<Rightarrow> str" where
  "rubyCallback m =
     (let rubyContent = FindStringSubmatch rubyPattern m ! 1;
          parts = Split2 (liti ''<rt>'') rubyContent
      in if length parts < 2 then deleteTag (parts ! 0)
         else
           (let baseParts = Split2 (liti ''<rp>'') (parts ! 0);
                rubyBase = deleteTag (baseParts ! 0);
                textParts = Split2 (liti ''<rp>'') (parts ! 1);
                rubyText = deleteTag (textParts ! 0)
            in [BAR] @ rubyBase @ [LQ] @ rubyText @ [RQ]))"

definition rubyToAozora :: "str \<Rightarrow> str" where
  "rubyToAozora t =
     (let t1 = strReplaceAll t [LQ] [LQ2];
          t2 = strReplaceAll t1 [RQ] [RQ2]
      in ReplaceAllStringFunc rubyPattern t2 rubyCallback)"

text \<open>
  \<open>bToAozora\<close>, \<open>iToAozora\<close>, \<open>sToAozora\<close>: the opening and the closing tag are
  rewritten one after the other, each under \<^verbatim>\<open>(?i)\<close>. The annotations are
  U+FF3B U+FF03 ... U+FF3D, with U+7D42 U+308F U+308A before the bracket of a closing one.
\<close>

definition bToAozora :: "str \<Rightarrow> str" where
  "bToAozora t =
     (let t1 = ReplaceAllString (liti ''<b>'') t [TLit [0xFF3B, 0xFF03, 0x592A, 0x5B57, 0xFF3D]]
      in ReplaceAllString (liti ''</b>'') t1
           [TLit [0xFF3B, 0xFF03, 0x592A, 0x5B57, 0x7D42, 0x308F, 0x308A, 0xFF3D]])"

definition iToAozora :: "str \<Rightarrow> str" where
  "iToAozora t =
     (let t1 = ReplaceAllString (liti ''<i>'') t [TLit [0xFF3B, 0xFF03, 0x659C, 0x4F53, 0xFF3D]]
      in ReplaceAllString (liti ''</i>'') t1
           [TLit [0xFF3B, 0xFF03, 0x659C, 0x4F53, 0x7D42, 0x308F, 0x308A, 0xFF3D]])"

definition sToAozora :: "str \<Rightarrow> str" where
  "sToAozora t =
     (let t1 = ReplaceAllString (liti ''<s>'') t
                 [TLit [0xFF3B, 0xFF03, 0x53D6, 0x6D88, 0x7DDA, 0xFF3D]]
      in ReplaceAllString (liti ''</s>'') t1
           [TLit [0xFF3B, 0xFF03, 0x53D6, 0x6D88, 0x7DDA, 0x7D42, 0x308F, 0x308A, 0xFF3D]])"

text \<open>
  \<open>imgToAozora\<close>. Resolving the source against the base URL (\<^verbatim>\<open>url.Parse\<close>,
  \<^verbatim>\<open>baseURL.Parse\<close>, \<^verbatim>\<open>String\<close>) is a parameter: \<open>resolveURL base src\<close> is the
  resolved URL, or \<open>None\<close> when one of the two does not parse.
\<close>

definition imgCallback :: "(str \<Rightarrow> str \<Rightarrow> str option) \<Rightarrow> HTMLConverter \<Rightarrow> regex \<Rightarrow> str \<Rightarrow> str" where
  "imgCallback resolveURL h pattern m =
     (let matches = FindStringSubmatch pattern m
      in if length matches < 2 then m
         else
           (let src = matches ! 1;
                src' = (if illustCurrentURL h \<noteq> [] then
                          (case resolveURL (illustCurrentURL h) src of
                             Some u \<Rightarrow> u
                           | None \<Rightarrow> src)
                        else src)
            in [0xFF3B, 0xFF03, 0x633F, 0x7D75, 0xFF08] @ src' @ [0xFF09, 0x5165, 0x308B, 0xFF3D]))"

definition imgToAozora :: "(str \<Rightarrow> str \<Rightarrow> str option) \<Rightarrow> HTMLConverter \<Rightarrow> str \<Rightarrow> str" where
  "imgToAozora resolveURL h t =
     (case illustGrepPattern h of
        None \<Rightarrow> t
      | Some pattern \<Rightarrow> ReplaceAllStringFunc pattern t (imgCallback resolveURL h pattern))"

text \<open>
  \<open>emToSesame\<close>: the pattern \<^verbatim>\<open><em class="emphasisDots">(.+?)</em>\<close> and the
  template with \<^verbatim>\<open>$1\<close> between the two annotations.
\<close>

definition emPattern :: regex where
  "emPattern =
     lit ''<em class='' @ [Ch (OneOf [34])] @ lit ''emphasisDots'' @ [Ch (OneOf [34])] @ lit ''>''
       @ [GOpen 1, Plus Dot Lazy, GClose 1] @ lit ''</em>''"

definition emToSesame :: "str \<Rightarrow> str" where
  "emToSesame t =
     ReplaceAllString emPattern t
       [TLit [0xFF3B, 0xFF03, 0x508D, 0x70B9, 0xFF3D], TGroup 1,
        TLit [0xFF3B, 0xFF03, 0x508D, 0x70B9, 0x7D42, 0x308F, 0x308A, 0xFF3D]]"

subsection \<open>Entity restoration\<close>

text \<open>The table \<open>replacements\<close>, in the order the source lists it.\<close>

definition replacements :: "(str \<times> str) list" where
  "replacements =
     [(asc ''&amp;'', asc ''&''),
      (asc ''&lt;'', asc ''<''),
      (asc ''&gt;'', asc ''>''),
      (asc ''&quot;'', [34]),
      (asc ''&apos;'', [39]),
      (asc ''&nbsp;'', asc '' ''),
      (asc ''&#39;'', [39]),
      (asc ''&#34;'', [34]),
      (asc ''&hellip;'', [0x2026]),
      (asc ''&mdash;'', [0x2014]),
      (asc ''&ndash;'', [0x2013]),
      (asc ''&lsquo;'', [39]),
      (asc ''&rsquo;'', [39]),
      (asc ''&ldquo;'', [0x201C]),
      (asc ''&rdquo;'', [0x201D])]"

text \<open>
  \<^verbatim>\<open>fmt.Sscanf(s, "%d", &code)\<close> and \<^verbatim>\<open>"%x"\<close> on a text of digits: the value, or
  an error (\<open>None\<close>) when it does not fit a signed 64-bit integer.
\<close>

definition digitVal :: "rune \<Rightarrow> nat" where
  "digitVal c =
     (if 48 \<le> c \<and> c \<le> 57 then c - 48
      else if 97 \<le> c \<and> c \<le> 102 then c - 87
      else c - 55)"

definition scanInt :: "nat \<Rightarrow> str \<Rightarrow> nat option" where
  "scanInt base ds =
     (let n = foldl (\<lambda>a d. a * base + digitVal d) 0 ds
      in if n < 2 ^ 63 then Some n else None)"

text \<open>
  \<^verbatim>\<open>string(rune(code))\<close>: the conversion to \<^verbatim>\<open>rune\<close> keeps the low 32 bits as a
  signed number; a rune that is negative, above U+10FFFF or a surrogate gives U+FFFD.
\<close>

definition runeString :: "nat \<Rightarrow> str" where
  "runeString code =
     (let r = code mod 2 ^ 32
      in if r \<ge> 2 ^ 31 \<or> r > 0x10FFFF \<or> (0xD800 \<le> r \<and> r \<le> 0xDFFF) then [0xFFFD] else [r])"

definition decDigits :: "rune list" where
  "decDigits = [48, 49, 50, 51, 52, 53, 54, 55, 56, 57]"

definition hexDigits :: "rune list" where
  "hexDigits = decDigits @ [97, 98, 99, 100, 101, 102] @ [65, 66, 67, 68, 69, 70]"

text \<open>The patterns \<^verbatim>\<open>&#(\d+);\<close> and \<^verbatim>\<open>&#x([0-9a-fA-F]+);\<close>.\<close>

definition decRefPattern :: regex where
  "decRefPattern = lit ''&#'' @ [GOpen 1, Plus (OneOf decDigits) Greedy, GClose 1] @ lit '';''"

definition hexRefPattern :: regex where
  "hexRefPattern = lit ''&#x'' @ [GOpen 1, Plus (OneOf hexDigits) Greedy, GClose 1] @ lit '';''"

definition numRefCallback :: "regex \<Rightarrow> nat \<Rightarrow> str \<Rightarrow> str" where
  "numRefCallback re base m =
     (let matches = FindStringSubmatch re m
      in if length matches < 2 then m
         else (case scanInt base (matches ! 1) of
                 None \<Rightarrow> m
               | Some code \<Rightarrow> runeString code))"

text \<open>
  \<open>restoreHTMLEntity\<close>. The source ranges over a Go map, and Go leaves the order of
  that iteration unspecified: it is the parameter \<open>order\<close>, a list with the entries of
  \<open>replacements\<close> in the order in which the loop visits them.
\<close>

definition restoreHTMLEntity :: "(str \<times> str) list \<Rightarrow> str \<Rightarrow> str" where
  "restoreHTMLEntity order t =
     (let result = foldl (\<lambda>r (entity, char). strReplaceAll r entity char) t order;
          result1 = ReplaceAllStringFunc decRefPattern result (numRefCallback decRefPattern 10)
      in ReplaceAllStringFunc hexRefPattern result1 (numRefCallback hexRefPattern 16))"

subsection \<open>The full conversion\<close>

definition ToAozora ::
  "(str \<Rightarrow> str \<Rightarrow> str option) \<Rightarrow> (str \<times> str) list \<Rightarrow> HTMLConverter \<Rightarrow> bool \<Rightarrow> str" where
  "ToAozora resolveURL order h preHTML =
     (let t = text0 h;
          t1 = (if \<not> preHTML then brToAozora t else t);
          t2 = pToAozora t1;
          t3 = rubyToAozora t2;
          t4 = (if \<not> stripDecorationTag h then sToAozora (iToAozora (bToAozora t3)) else t3);
          t5 = imgToAozora resolveURL h t4;
          t6 = emToSesame t5;
          t7 = deleteTag t6
      in restoreHTMLEntity order t7)"

section \<open>The download orchestrator (app.go)\<close>

subsection \<open>File names\<close>

text \<open>\<^verbatim>\<open>fmt.Sprintf("%d", n)\<close> for a number that is not negative.\<close>

function showNat :: "nat \<Rightarrow> str" where
  "showNat n = (if n < 10 then [48 + n] else showNat (n div 10) @ [48 + n mod 10])"
  by pat_completeness auto
termination
  by (relation "measure (\<lambda>n. n)") auto

declare showNat.simps [simp del]

text \<open>\<^verbatim>\<open>strings.Split(s, "/")\<close>, for the one-rune separator \<open>sep\<close>.\<close>

fun splitOn :: "rune \<Rightarrow> str \<Rightarrow> str list" where
  "splitOn sep [] = [[]]"
| "splitOn sep (x # xs) =
     (if x = sep then [] # splitOn sep xs
      else (case splitOn sep xs of [] \<Rightarrow> [[x]] | p # ps \<Rightarrow> (x # p) # ps))"

text \<open>
  \<^verbatim>\<open>strings.ToUpper\<close>, which the source applies to texts of ASCII digits and lower-case
  letters only.
\<close>

definition ToUpper :: "str \<Rightarrow> str" where
  "ToUpper s = map (\<lambda>c. if 97 \<le> c \<and> c \<le> 122 then c - 32 else c) s"

definition isDigit :: "rune \<Rightarrow> bool" where
  "isDigit c = (48 \<le> c \<and> c \<le> 57)"

definition isLower :: "rune \<Rightarrow> bool" where
  "isLower c = (97 \<le> c \<and> c \<le> 122)"

text \<open>
  \<open>extractNovelCodeFromURL\<close>: the pattern \<^verbatim>\<open>/n([0-9]+[a-z]+)/\<close>, then the loop over
  the parts of the URL.
\<close>

definition novelCodePattern :: regex where
  "novelCodePattern =
     lit ''/n'' @ [GOpen 1, Plus (OneOf [48 ..< 58]) Greedy, Plus (OneOf [97 ..< 123]) Greedy, GClose 1]
       @ lit ''/''"

fun novelCodeLoop :: "str list \<Rightarrow> str" where
  "novelCodeLoop [] = asc ''UNKNOWN''"
| "novelCodeLoop (part # parts) =
     (if HasPrefix part (asc ''n'') \<and> length part > 1
         \<and> list_all (\<lambda>c. isLower c \<or> isDigit c) (tl part)
      then ToUpper part
      else novelCodeLoop parts)"

definition extractNovelCodeFromURL :: "str \<Rightarrow> str" where
  "extractNovelCodeFromURL url =
     (let matches = FindStringSubmatch novelCodePattern url
      in if length matches \<ge> 2 then asc ''N'' @ ToUpper (matches ! 1)
         else novelCodeLoop (splitOn 47 url))"

text \<open>
  \<open>extractEpisodeNumberFromURL\<close>: the pattern \<^verbatim>\<open>/n[0-9]+[a-z]+/([0-9]+)/?\<close>, then
  the loop over the parts, which looks at each part and the part after it.
\<close>

definition episodePattern :: regex where
  "episodePattern =
     lit ''/n'' @ [Plus (OneOf [48 ..< 58]) Greedy, Plus (OneOf [97 ..< 123]) Greedy] @ lit ''/''
       @ [GOpen 1, Plus (OneOf [48 ..< 58]) Greedy, GClose 1, Quest (OneOf [47]) Greedy]"

fun episodeLoop :: "str list \<Rightarrow> str" where
  "episodeLoop (part # next # parts) =
     (if HasPrefix part (asc ''n'') \<and> length part > 1
         \<and> next \<noteq> [] \<and> next \<noteq> asc ''/'' \<and> list_all isDigit next
      then next
      else episodeLoop (next # parts))"
| "episodeLoop parts = asc ''1''"

definition extractEpisodeNumberFromURL :: "str \<Rightarrow> str" where
  "extractEpisodeNumberFromURL url =
     (let matches = FindStringSubmatch episodePattern url
      in if length matches \<ge> 2 then matches ! 1
         else episodeLoop (splitOn 47 url))"

definition generateFileName :: "str \<Rightarrow> str \<Rightarrow> str" where
  "generateFileName novelCode episodeNumber = novelCode @ asc ''-'' @ episodeNumber"

subsection \<open>The world outside\<close>

text \<open>
  Errors: those that come from outside (the network, the file system, an encoder), and
  those that the orchestrator builds around them.
\<close>

datatype err =
    External str
  | NoEpisodes
  | FetchLimit nat err
  | SaveLimit nat str "err option"
  | CombinedSave err

text \<open>
  What the orchestrator does to the outside is recorded as a trace of events: the
  messages to the progress channel, the calls of \<open>ScrapeChapterWithHTML\<close> (with the
  URL, and whether the call succeeded), the sleeps (in seconds) and the writes (path and
  text). The progress value \<^verbatim>\<open>int(float64(i)/float64(totalChapters)*80)\<close> is recorded
  by its two numbers.
\<close>

datatype logmsg =
    LogStart nat
  | LogSkip nat str
  | LogFetching nat str
  | LogFetchFailed nat err nat nat
  | LogWait nat
  | LogSaveFailed nat err
  | LogCombining
  | LogDone
  | LogTxtError err
  | LogSaveRetry nat nat str
  | LogSaveRetryOk nat str
  | LogSaveAttemptFailed nat nat str err

datatype ptext = PTCount nat nat | PTCombining | PTDone nat nat

datatype event =
    Progress80 nat nat
  | Progress nat
  | ProgressText ptext
  | Log logmsg
  | Fetch str bool
  | Sleep nat
  | Write str str

text \<open>
  The world: the paths of the files that exist, the number of requests made to the
  outside so far, and the trace.
\<close>

record world =
  files :: "str set"
  clock :: nat
  trace :: "event list"

definition emit :: "event \<Rightarrow> world \<Rightarrow> world" where
  "emit e w = w\<lparr>trace := trace w @ [e]\<rparr>"

definition tick :: "world \<Rightarrow> world" where
  "tick w = w\<lparr>clock := Suc (clock w)\<rparr>"

text \<open>
  What the model takes as given: \<^verbatim>\<open>filepath.Join\<close>; the result of
  \<open>ScrapeChapterWithHTML\<close> and of \<^verbatim>\<open>os.WriteFile\<close>, which depend on the moment of
  the call; the Shift-JIS encoder; and the three functions of the source that lay out
  the text of a file, whose text no property here depends on.
\<close>

record env =
  Join :: "str list \<Rightarrow> str"
  ScrapeChapterWithHTML :: "nat \<Rightarrow> str \<Rightarrow> err + (str \<times> str \<times> str)"
  WriteFile :: "nat \<Rightarrow> str \<Rightarrow> err option"
  ShiftJIS :: "str \<Rightarrow> err option"
  formatChapterContent :: "str \<Rightarrow> str \<Rightarrow> str \<Rightarrow> str \<Rightarrow> str"
  formatChapterContentForCombined :: "str \<Rightarrow> str \<Rightarrow> str"
  convertRubyToAozora :: "str \<Rightarrow> str"

subsection \<open>Skip detection\<close>

definition isFileAlreadySaved ::
  "env \<Rightarrow> world \<Rightarrow> str \<Rightarrow> str \<Rightarrow> str \<Rightarrow> bool \<Rightarrow> bool \<Rightarrow> bool \<times> bool" where
  "isFileAlreadySaved env w savePath fileName episodeNumber createHtml createTxt =
     (let htmlExists =
            (if createHtml
             then Join env [savePath, asc ''html'', episodeNumber @ asc ''.html''] \<in> files w
             else True);
          txtExists =
            (if createTxt
             then Join env [savePath, fileName @ asc ''.txt''] \<in> files w
             else True)
      in (htmlExists, txtExists))"

definition shouldSkipEpisode ::
  "env \<Rightarrow> world \<Rightarrow> str \<Rightarrow> str \<Rightarrow> str \<Rightarrow> bool \<Rightarrow> bool \<Rightarrow> bool" where
  "shouldSkipEpisode env w savePath fileName episodeNumber createHtml createTxt =
     (case isFileAlreadySaved env w savePath fileName episodeNumber createHtml createTxt of
        (htmlExists, txtExists) \<Rightarrow> htmlExists \<and> txtExists)"

subsection \<open>Saving a text file\<close>

definition saveTextFile ::
  "env \<Rightarrow> str \<Rightarrow> str \<Rightarrow> str \<Rightarrow> str \<Rightarrow> str \<Rightarrow> world \<Rightarrow> err option \<times> world" where
  "saveTextFile env savePath title content encoding lineEnding w =
     (let content1 = (if lineEnding = asc ''CR+LF'' then strReplaceAll content [10] [13, 10]
                      else content);
          encErr = (if encoding = asc ''Shift-JIS'' then ShiftJIS env content1 else None)
      in case encErr of
           Some e \<Rightarrow> (Some e, emit (Log (LogTxtError e)) w)
         | None \<Rightarrow>
            (let path = Join env [savePath, title] @ asc ''.txt'';
                 w1 = tick (emit (Write path content1) w)
             in case WriteFile env (clock w) path of
                  Some e \<Rightarrow> (Some e, emit (Log (LogTxtError e)) w1)
                | None \<Rightarrow> (None, w1\<lparr>files := insert path (files w1)\<rparr>)))"

definition maxRetries :: nat where
  "maxRetries = 3"

function saveRetryLoop ::
  "env \<Rightarrow> str \<Rightarrow> str \<Rightarrow> str \<Rightarrow> str \<Rightarrow> str \<Rightarrow> nat \<Rightarrow> err option \<Rightarrow> world \<Rightarrow> err option \<times> world" where
  "saveRetryLoop env savePath title content encoding lineEnding retry lastErr w =
     (if retry < maxRetries then
        (let w1 = (if retry > 0
                   then emit (Sleep 2) (emit (Log (LogSaveRetry (retry + 1) maxRetries title)) w)
                   else w)
         in case saveTextFile env savePath title content encoding lineEnding w1 of
              (None, w2) \<Rightarrow>
                (None, if retry > 0 then emit (Log (LogSaveRetryOk (retry + 1) title)) w2 else w2)
            | (Some e, w2) \<Rightarrow>
                saveRetryLoop env savePath title content encoding lineEnding (Suc retry) (Some e)
                  (emit (Log (LogSaveAttemptFailed (retry + 1) maxRetries title e)) w2))
      else (Some (SaveLimit maxRetries title lastErr), w))"
  by pat_completeness auto
termination
  by (relation "measure (\<lambda>(env, savePath, title, content, encoding, lineEnding, retry, lastErr, w).
                           maxRetries - retry)") auto

declare saveRetryLoop.simps [simp del]

definition saveTextFileWithRetry ::
  "env \<Rightarrow> str \<Rightarrow> str \<Rightarrow> str \<Rightarrow> str \<Rightarrow> str \<Rightarrow> world \<Rightarrow> err option \<times> world" where
  "saveTextFileWithRetry env savePath title content encoding lineEnding w =
     saveRetryLoop env savePath title content encoding lineEnding 0 None w"

subsection \<open>The loop over the chapters\<close>

record ChapterInfo =
  cTitle :: str
  cURL :: str
  cContent :: str
  cRawHTML :: str
  cFullPageHTML :: str
  cRetryCount :: int
  cFailed :: bool

record ScrapeResult =
  PageType :: str
  Title :: str
  Author :: str
  RawHTML :: "str list"
  TextContent :: "str list"
  FullPageHTML :: str
  IndexPagesHTML :: "str list"
  Chapters :: "ChapterInfo list"
  Error :: str

definition maxFailures :: nat where
  "maxFailures = 3"

text \<open>The variables of \<open>downloadRensai\<close> that the loop changes, and the world.\<close>

record loopState =
  failedChapters :: nat
  allChapterContents :: "str list"
  chapters :: "ChapterInfo list"
  world :: world

text \<open>What the loop reads and does not change.\<close>

record loopCtx =
  savePath :: str
  result :: ScrapeResult
  createHtml :: bool
  createTxt :: bool
  encoding :: str
  lineEnding :: str
  totalChapters :: nat
  novelCode :: str

text \<open>
  The body of the loop for the chapter of index \<open>i\<close>: the error if the run stops
  here, and the state after the chapter.
\<close>

definition episodeNumberOf :: "nat \<Rightarrow> ChapterInfo \<Rightarrow> str" where
  "episodeNumberOf i chapter =
     (let episodeNumber = extractEpisodeNumberFromURL (cURL chapter)
      in if episodeNumber = [] \<or> (i > 0 \<and> episodeNumber = asc ''1'') then showNat (i + 1)
         else episodeNumber)"

definition processChapter ::
  "env \<Rightarrow> loopCtx \<Rightarrow> nat \<Rightarrow> ChapterInfo \<Rightarrow> loopState \<Rightarrow> err option \<times> loopState" where
  "processChapter env cx i chapter st =
     (let w1 = emit (ProgressText (PTCount i (totalChapters cx)))
                 (emit (Progress80 i (totalChapters cx)) (world st));
          episodeNumber = episodeNumberOf i chapter;
          chapterFileName = generateFileName (novelCode cx) episodeNumber
      in if shouldSkipEpisode env w1 (savePath cx) chapterFileName episodeNumber
              (createHtml cx) (createTxt cx)
         then (None, st\<lparr>world := emit (Log (LogSkip (i + 1) (cTitle chapter))) w1\<rparr>)
         else
           (let w2 = emit (Log (LogFetching (i + 1) (cTitle chapter))) w1
            in case ScrapeChapterWithHTML env (clock w2) (cURL chapter) of
                 Inl e \<Rightarrow>
                   (let failed = failedChapters st + 1;
                        w3 = emit (Log (LogFetchFailed (i + 1) e failed maxFailures))
                               (tick (emit (Fetch (cURL chapter) False) w2))
                    in if failed \<ge> maxFailures
                       then (Some (FetchLimit maxFailures e),
                             st\<lparr>failedChapters := failed, world := w3\<rparr>)
                       else (None, st\<lparr>failedChapters := failed, world := w3\<rparr>))
               | Inr (content, rawHTML, fullPageHTML) \<Rightarrow>
                   (let w3 = tick (emit (Fetch (cURL chapter) True) w2);
                        chapters1 = (chapters st)
                          [i := (chapters st ! i)\<lparr>cContent := content, cRawHTML := rawHTML,
                                                   cFullPageHTML := fullPageHTML\<rparr>];
                        all1 = allChapterContents st
                                 @ [formatChapterContentForCombined env (cTitle chapter) content];
                        w4 = (if i < totalChapters cx - 1
                              then emit (Sleep 10) (emit (Log (LogWait (i + 1))) w3)
                              else w3);
                        w5 = (if createTxt cx then
                                (case saveTextFileWithRetry env (savePath cx) chapterFileName
                                        (formatChapterContent env (Title (result cx))
                                           (Author (result cx)) (cTitle chapter) content)
                                        (encoding cx) (lineEnding cx) w4 of
                                   (None, w) \<Rightarrow> w
                                 | (Some e, w) \<Rightarrow> emit (Log (LogSaveFailed (i + 1) e)) w)
                              else w4)
                    in (None, \<lparr>failedChapters = 0, allChapterContents = all1,
                               chapters = chapters1, world = w5\<rparr>))))"

fun rensaiLoop ::
  "env \<Rightarrow> loopCtx \<Rightarrow> nat \<Rightarrow> ChapterInfo list \<Rightarrow> loopState \<Rightarrow> err option \<times> loopState" where
  "rensaiLoop env cx i [] st = (None, st)"
| "rensaiLoop env cx i (chapter # rest) st =
     (case processChapter env cx i chapter st of
        (Some e, st1) \<Rightarrow> (Some e, st1)
      | (None, st1) \<Rightarrow> rensaiLoop env cx (Suc i) rest st1)"

text \<open>The separator of the combined file.\<close>

definition combinedSeparator :: str where
  "combinedSeparator = [10, 10] @ asc ''----------------'' @ [10, 10, 10]"

fun joinWith :: "str \<Rightarrow> str list \<Rightarrow> str" where
  "joinWith sep [] = []"
| "joinWith sep [x] = x"
| "joinWith sep (x # y # ys) = x @ sep @ joinWith sep (y # ys)"

definition downloadRensai ::
  "env \<Rightarrow> str \<Rightarrow> ScrapeResult \<Rightarrow> bool \<Rightarrow> bool \<Rightarrow> str \<Rightarrow> str \<Rightarrow> bool \<Rightarrow> world
     \<Rightarrow> err option \<times> world" where
  "downloadRensai env savePath0 result0 createHtml0 createTxt0 encoding0 lineEnding0
       createCombined w =
     (case Chapters result0 of
        [] \<Rightarrow> (Some NoEpisodes, w)
      | first # others \<Rightarrow>
         (let total = length (Chapters result0);
              w1 = emit (ProgressText (PTCount 0 total)) (emit (Log (LogStart total)) w);
              cx = \<lparr>savePath = savePath0, result = result0, createHtml = createHtml0,
                    createTxt = createTxt0, encoding = encoding0, lineEnding = lineEnding0,
                    totalChapters = total, novelCode = extractNovelCodeFromURL (cURL first)\<rparr>
          in case rensaiLoop env cx 0 (Chapters result0)
                    \<lparr>failedChapters = 0, allChapterContents = [],
                     chapters = Chapters result0, world = w1\<rparr> of
               (Some e, st) \<Rightarrow> (Some e, world st)
             | (None, st) \<Rightarrow>
                (let done = (\<lambda>w. emit (Log LogDone)
                                    (emit (ProgressText (PTDone total total))
                                       (emit (Progress 100) w)))
                 in if createCombined \<and> length (allChapterContents st) > 0 then
                      (let w2 = emit (Log LogCombining)
                                  (emit (ProgressText PTCombining) (emit (Progress 90) (world st)));
                           combinedContent =
                             convertRubyToAozora env (Title result0) @ [10]
                               @ convertRubyToAozora env (Author result0) @ [10, 10, 10]
                               @ joinWith combinedSeparator (allChapterContents st)
                       in if createTxt0 then
                            (case saveTextFileWithRetry env savePath0 (asc ''all'') combinedContent
                                    encoding0 lineEnding0 w2 of
                               (Some e, w3) \<Rightarrow> (Some (CombinedSave e), w3)
                             | (None, w3) \<Rightarrow> (None, done w3))
                          else (None, done w2))
                    else (None, done (world st)))))"

section \<open>A match matches again\<close>

text \<open>
  A match only depends on the text it covers: the patterns have no anchors and do not look
  ahead, so that cutting the input after the match changes neither a failure before it nor
  the match. The functions passed to \<^verbatim>\<open>ReplaceAllStringFunc\<close> rely on it when
  they match the text of a match again to read its groups.
\<close>

lemma rmatch_mono: "rmatch p s k c = Some (n, c') \<Longrightarrow> k \<le> n"
proof (induction p s k c rule: rmatch.induct)
  case (1 s k c)
  then show ?case by simp
next
  case (2 cl p s k c)
  then show ?case by (cases s) (auto split: if_splits dest: Suc_leD)
next
  case (3 cl g p s k c)
  then show ?case
    by (cases s; cases g) (auto split: if_splits option.splits dest: Suc_leD)
next
  case (4 cl g p s k c)
  then show ?case by (cases s) (auto split: if_splits dest: Suc_leD)
next
  case (5 cl g p s k c)
  then show ?case
    by (cases s; cases g) (auto split: if_splits option.splits dest: Suc_leD)
next
  case (6 n p s k c)
  then show ?case by simp
next
  case (7 n p s k c)
  then show ?case by simp
qed

lemma Ch_None_iff:
  "rmatch (Ch cl # p) s k c = None \<longleftrightarrow>
     (\<forall>x xs. s = x # xs \<and> accepts cl x \<longrightarrow> rmatch p xs (Suc k) c = None)"
  by (cases s) auto

lemma Star_None_iff:
  "rmatch (Star cl g # p) s k c = None \<longleftrightarrow>
     rmatch p s k c = None \<and>
     (\<forall>x xs. s = x # xs \<and> accepts cl x \<longrightarrow> rmatch (Star cl g # p) xs (Suc k) c = None)"
  by (cases g; cases s) (auto split: option.splits)

lemma Plus_None_iff:
  "rmatch (Plus cl g # p) s k c = None \<longleftrightarrow>
     (\<forall>x xs. s = x # xs \<and> accepts cl x \<longrightarrow> rmatch (Star cl g # p) xs (Suc k) c = None)"
  by (cases s) auto

lemma Quest_None_iff:
  "rmatch (Quest cl g # p) s k c = None \<longleftrightarrow>
     rmatch p s k c = None \<and>
     (\<forall>x xs. s = x # xs \<and> accepts cl x \<longrightarrow> rmatch p xs (Suc k) c = None)"
  by (cases g; cases s) (auto split: option.splits)

lemma take_eq_Cons:
  "take m s = x # ys \<Longrightarrow> \<exists>m' xs. m = Suc m' \<and> s = x # xs \<and> ys = take m' xs"
  by (cases m; cases s) auto

lemma rmatch_take_None:
  "rmatch p s k c = None \<Longrightarrow> rmatch p (take m s) k c = None"
proof (induction "length p + length s" arbitrary: p s k c m rule: less_induct)
  case less
  note IH = less.hyps [rotated]
  show ?case
  proof (cases p)
    case Nil
    with less.prems show ?thesis by simp
  next
    case (Cons i q)
    have tl: "rmatch r ys (Suc k) c = None"
      if A: "take m s = x # ys" and B: "\<And>xs. s = x # xs \<Longrightarrow> rmatch r xs (Suc k) c = None"
        and C: "length r \<le> length p" for x ys r
    proof -
      obtain m' xs where *: "m = Suc m'" "s = x # xs" "ys = take m' xs"
        using take_eq_Cons [OF A] by blast
      have "rmatch r xs (Suc k) c = None" by (rule B [OF *(2)])
      then have "rmatch r (take m' xs) (Suc k) c = None"
        by (rule IH) (use C *(2) in simp)
      with * show ?thesis by simp
    qed
    have same: "rmatch q (take m s) k c' = None" if "rmatch q s k c' = None" for c'
      using that by (rule IH) (simp add: Cons)
    show ?thesis
    proof (cases i)
      case (Ch cl)
      have "\<And>x xs. s = x # xs \<Longrightarrow> accepts cl x \<Longrightarrow> rmatch q xs (Suc k) c = None"
        using less.prems Ch_None_iff [of cl q s k c] unfolding Cons Ch by blast
      then have "\<And>x ys. take m s = x # ys \<Longrightarrow> accepts cl x \<Longrightarrow> rmatch q ys (Suc k) c = None"
        using tl [of _ _ q] Cons by simp
      then show ?thesis
        unfolding Cons Ch using Ch_None_iff [of cl q "take m s" k c] by blast
    next
      case (Star cl g)
      have P: "rmatch q s k c = None"
        and Q: "\<And>x xs. s = x # xs \<Longrightarrow> accepts cl x \<Longrightarrow> rmatch (Star cl g # q) xs (Suc k) c = None"
        using less.prems Star_None_iff [of cl g q s k c] unfolding Cons Star by blast+
      have "\<And>x ys. take m s = x # ys \<Longrightarrow> accepts cl x
               \<Longrightarrow> rmatch (Star cl g # q) ys (Suc k) c = None"
        using tl [of _ _ "Star cl g # q"] Q Cons by simp
      with same [OF P] show ?thesis
        unfolding Cons Star using Star_None_iff [of cl g q "take m s" k c] by blast
    next
      case (Plus cl g)
      have Q: "\<And>x xs. s = x # xs \<Longrightarrow> accepts cl x \<Longrightarrow> rmatch (Star cl g # q) xs (Suc k) c = None"
        using less.prems Plus_None_iff [of cl g q s k c] unfolding Cons Plus by blast
      have "\<And>x ys. take m s = x # ys \<Longrightarrow> accepts cl x
               \<Longrightarrow> rmatch (Star cl g # q) ys (Suc k) c = None"
        using tl [of _ _ "Star cl g # q"] Q Cons by simp
      then show ?thesis
        unfolding Cons Plus using Plus_None_iff [of cl g q "take m s" k c] by blast
    next
      case (Quest cl g)
      have P: "rmatch q s k c = None"
        and Q: "\<And>x xs. s = x # xs \<Longrightarrow> accepts cl x \<Longrightarrow> rmatch q xs (Suc k) c = None"
        using less.prems Quest_None_iff [of cl g q s k c] unfolding Cons Quest by blast+
      have "\<And>x ys. take m s = x # ys \<Longrightarrow> accepts cl x \<Longrightarrow> rmatch q ys (Suc k) c = None"
        using tl [of _ _ q] Q Cons by simp
      with same [OF P] show ?thesis
        unfolding Cons Quest using Quest_None_iff [of cl g q "take m s" k c] by blast
    next
      case (GOpen n)
      show ?thesis
        using less.prems same [of "capOpen n k c"] unfolding Cons GOpen by simp
    next
      case (GClose n)
      show ?thesis
        using less.prems same [of "capClose n k c"] unfolding Cons GClose by simp
    qed
  qed
qed

text \<open>One rune of the class \<open>cl\<close>, then the pattern \<open>r\<close>.\<close>

definition eat :: "cls \<Rightarrow> regex \<Rightarrow> str \<Rightarrow> nat \<Rightarrow> caps \<Rightarrow> (nat \<times> caps) option" where
  "eat cl r s k c =
     (case s of [] \<Rightarrow> None
      | x # xs \<Rightarrow> if accepts cl x then rmatch r xs (Suc k) c else None)"

lemma eat_Some_D:
  "eat cl r s k c = Some v \<Longrightarrow>
     \<exists>x xs. s = x # xs \<and> accepts cl x \<and> rmatch r xs (Suc k) c = Some v"
  by (cases s) (auto simp: eat_def split: if_splits)

lemma eat_None_take: "eat cl r s k c = None \<Longrightarrow> eat cl r (take m s) k c = None"
  using rmatch_take_None [of r _ "Suc k" c]
  by (cases s; cases m) (auto simp: eat_def split: if_splits)

lemma rmatch_eat_Ch: "rmatch (Ch cl # p) s k c = eat cl p s k c"
  by (simp add: eat_def)

lemma rmatch_eat_Plus: "rmatch (Plus cl g # p) s k c = eat cl (Star cl g # p) s k c"
  by (simp add: eat_def)

lemma rmatch_eat_Star:
  "rmatch (Star cl g # p) s k c =
     (if g = Greedy then
        (case eat cl (Star cl g # p) s k c of Some r \<Rightarrow> Some r | None \<Rightarrow> rmatch p s k c)
      else
        (case rmatch p s k c of Some r \<Rightarrow> Some r | None \<Rightarrow> eat cl (Star cl g # p) s k c))"
  unfolding eat_def by (subst rmatch.simps) (rule refl)

lemma rmatch_eat_Quest:
  "rmatch (Quest cl g # p) s k c =
     (if g = Greedy then
        (case eat cl p s k c of Some r \<Rightarrow> Some r | None \<Rightarrow> rmatch p s k c)
      else
        (case rmatch p s k c of Some r \<Rightarrow> Some r | None \<Rightarrow> eat cl p s k c))"
  unfolding eat_def by (subst rmatch.simps) (rule refl)

lemmas rmatch_eat = rmatch_eat_Ch rmatch_eat_Plus rmatch_eat_Star rmatch_eat_Quest

lemma rmatch_take_Some:
  "rmatch p s k c = Some (n, c') \<Longrightarrow> rmatch p (take (n - k) s) k c = Some (n, c')"
proof (induction "length p + length s" arbitrary: p s k c rule: less_induct)
  case less
  note IH = less.hyps [rotated]
  show ?case
  proof (cases p)
    case Nil
    with less.prems show ?thesis by simp
  next
    case (Cons i q)
    have E: "eat cl r (take (n - k) s) k c = Some (n, c')"
      if A: "eat cl r s k c = Some (n, c')" and C: "length r \<le> length p" for cl r
    proof -
      obtain x xs where *: "s = x # xs" "accepts cl x" "rmatch r xs (Suc k) c = Some (n, c')"
        using eat_Some_D [OF A] by blast
      have le: "Suc k \<le> n" by (rule rmatch_mono [OF *(3)])
      have "rmatch r (take (n - Suc k) xs) (Suc k) c = Some (n, c')"
        using *(3) by (rule IH) (use C *(1) in simp)
      moreover have "take (n - k) s = x # take (n - Suc k) xs"
        using le * by (simp add: take_Cons')
      ultimately show ?thesis using *(2) by (simp add: eat_def)
    qed
    have S: "rmatch q (take (n - k) s) k c0 = Some (n, c')"
      if "rmatch q s k c0 = Some (n, c')" for c0
      using that by (rule IH) (simp add: Cons)
    note N = eat_None_take [of _ _ s k c "n - k"] rmatch_take_None [of q s k c "n - k"]
    show ?thesis
    proof (cases i)
      case (Ch cl)
      then show ?thesis
        using less.prems E [of cl q] unfolding Cons by (simp add: rmatch_eat del: rmatch.simps)
    next
      case (Star cl g)
      then show ?thesis
        using less.prems E [of cl "Star cl g # q"] S [of c] N unfolding Cons
        by (auto simp add: rmatch_eat simp del: rmatch.simps split: if_splits option.splits)
    next
      case (Plus cl g)
      then show ?thesis
        using less.prems E [of cl "Star cl g # q"] unfolding Cons
        by (simp add: rmatch_eat del: rmatch.simps)
    next
      case (Quest cl g)
      then show ?thesis
        using less.prems E [of cl q] S [of c] N unfolding Cons
        by (auto simp add: rmatch_eat simp del: rmatch.simps split: if_splits option.splits)
    next
      case (GOpen m)
      then show ?thesis
        using less.prems S [of "capOpen m k c"] unfolding Cons by simp
    next
      case (GClose m)
      then show ?thesis
        using less.prems S [of "capClose m k c"] unfolding Cons by simp
    qed
  qed
qed

lemma find_at_start:
  "rmatch re s 0 [] = Some (n, c) \<Longrightarrow> find re s = Some ([], submatches re s n c, drop n s)"
  by (cases s) auto

lemma find_match_again:
  assumes "find re s = Some (pre, ms, rest)"
  shows "length (FindStringSubmatch re (hd ms)) = Suc (NumSubexp re)"
  using assms
proof (induction s arbitrary: pre)
  case Nil
  then obtain n c where m: "rmatch re [] 0 [] = Some (n, c)" and ms: "ms = submatches re [] n c"
    by (auto split: option.splits)
  from find_at_start [OF m] ms show ?case
    by (simp add: FindStringSubmatch_def submatches_def)
next
  case (Cons x xs)
  show ?case
  proof (cases "rmatch re (x # xs) 0 []")
    case None
    with Cons.prems obtain pre' where "find re xs = Some (pre', ms, rest)"
      by (auto split: option.splits)
    then show ?thesis by (rule Cons.IH)
  next
    case (Some r)
    obtain n c where r: "r = (n, c)" by (cases r)
    from Some r Cons.prems have ms: "hd ms = take n (x # xs)"
      by (auto simp: submatches_def)
    from rmatch_take_Some [of re "x # xs" 0 "[]" n c] Some r
    have "rmatch re (take n (x # xs)) 0 [] = Some (n, c)" by simp
    from find_at_start [OF this] ms show ?thesis
      by (simp add: FindStringSubmatch_def submatches_def)
  qed
qed

text \<open>
  In \<open>rubyCallback\<close> the submatch list of the text of a match has two entries, so that
  the index 1 is in range.
\<close>

lemma rubyCallback_index_in_range:
  assumes "find rubyPattern s = Some (pre, ms, rest)"
  shows "length (FindStringSubmatch rubyPattern (hd ms)) = 2"
  using find_match_again [OF assms] by (simp add: rubyPattern_def liti_def NumSubexp_def)

section \<open>Evaluation on concrete texts\<close>

text \<open>
  The equation of \<open>replaceAll\<close> is applied on demand only. The passes of \<open>ToAozora\<close>
  as one composition, which evaluates from the inside out.
\<close>

declare replaceAll.simps [simp del]

lemmas re_defs = replaceAll.simps ReplaceAllString_def ReplaceAllStringFunc_def
  FindStringSubmatch_def Split2_def submatches_def NumSubexp_def lit_def liti_def
  fold_orbit_def asc_def Let_def

lemmas conv_defs = brToAozora_def pToAozora_def rubyToAozora_def rubyCallback_def
  rubyPattern_def deleteTag_def tagPattern_def bToAozora_def iToAozora_def sToAozora_def
  imgToAozora_def imgCallback_def emToSesame_def emPattern_def restoreHTMLEntity_def
  numRefCallback_def decRefPattern_def hexRefPattern_def decDigits_def hexDigits_def
  scanInt_def digitVal_def runeString_def NewHTMLConverter_def defaultIllustPattern_def
  BAR_def LQ_def RQ_def LQ2_def RQ2_def LF_def CR_def

lemma ToAozora_passes:
  "ToAozora resolveURL order h preHTML =
     restoreHTMLEntity order (deleteTag (emToSesame (imgToAozora resolveURL h
       ((if \<not> stripDecorationTag h then (\<lambda>t. sToAozora (iToAozora (bToAozora t))) else (\<lambda>t. t))
         (rubyToAozora (pToAozora (if \<not> preHTML then brToAozora (text0 h) else text0 h)))))))"
  unfolding ToAozora_def Let_def by simp

text \<open>
  A resolver for the examples: no source resolves. The examples have no base URL, so
  that the resolver is not consulted.
\<close>

definition resolveNone :: "str \<Rightarrow> str \<Rightarrow> str option" where
  "resolveNone base src = None"

text \<open>The examples of the repository's tests for the full conversion, in ASCII.\<close>

lemma ToAozora_test_ruby:
  "ToAozora resolveNone replacements
     (NewHTMLConverter (asc ''<p>a<ruby>K<rt>k</rt></ruby>b</p>'')) False
   = asc ''a'' @ [BAR] @ asc ''K'' @ [LQ] @ asc ''k'' @ [RQ] @ asc ''b'' @ [LF]"
  unfolding ToAozora_passes by (simp add: re_defs conv_defs replacements_def)

lemma ToAozora_test_strip:
  "ToAozora resolveNone replacements
     (SetStripDecorationTag (NewHTMLConverter (asc ''<p><b>B</b>x<i>I</i></p>'')) True) False
   = asc ''BxI'' @ [LF]"
  unfolding ToAozora_passes
  by (simp add: re_defs conv_defs replacements_def SetStripDecorationTag_def)

text \<open>
  The examples of the repository's tests for the single passes. A Latin letter stands for
  each kana or kanji of the test texts, which no pattern tells apart.
\<close>

lemma brToAozora_test_basic:
  "brToAozora (asc ''A<br>B<br />'') = asc ''A'' @ [LF] @ asc ''B'' @ [LF]"
  by (simp add: re_defs conv_defs)

lemma brToAozora_test_newlines:
  "brToAozora (asc ''A'' @ [LF] @ asc ''<br>'' @ [LF] @ asc ''B'' @ [CR, LF] @ asc ''<br>'')
   = asc ''A'' @ [LF] @ asc ''B'' @ [LF]"
  by (simp add: re_defs conv_defs)

lemma brToAozora_test_none: "brToAozora (asc ''AB'') = asc ''AB''"
  by (simp add: re_defs conv_defs)

lemma rubyToAozora_test_basic:
  "rubyToAozora (asc ''<ruby>K<rt>k</rt></ruby>'') = [BAR] @ asc ''K'' @ [LQ] @ asc ''k'' @ [RQ]"
  by (simp add: re_defs conv_defs)

lemma rubyToAozora_test_rp:
  "rubyToAozora (asc ''<ruby><rb>K</rb><rp>(</rp><rt>k</rt><rp>)</rp></ruby>'')
   = [BAR] @ asc ''K'' @ [LQ] @ asc ''k'' @ [RQ]"
  by (simp add: re_defs conv_defs)

lemma rubyToAozora_test_no_rt: "rubyToAozora (asc ''<ruby>K</ruby>'') = asc ''K''"
  by (simp add: re_defs conv_defs)

lemma rubyToAozora_test_two:
  "rubyToAozora (asc ''<ruby>K<rt>k</rt></ruby>x<ruby>J<rt>j</rt></ruby>'')
   = [BAR] @ asc ''K'' @ [LQ] @ asc ''k'' @ [RQ] @ asc ''x''
       @ [BAR] @ asc ''J'' @ [LQ] @ asc ''j'' @ [RQ]"
  by (simp add: re_defs conv_defs)

lemma rubyToAozora_test_brackets:
  "rubyToAozora (asc ''a'' @ [LQ] @ asc ''b'' @ [RQ] @ asc ''c'')
   = asc ''a'' @ [LQ2] @ asc ''b'' @ [RQ2] @ asc ''c''"
  by (simp add: re_defs conv_defs)

lemma bToAozora_test_mixed_case:
  "bToAozora (asc ''<B>x</B>y<b>z</b>'')
   = [0xFF3B, 0xFF03, 0x592A, 0x5B57, 0xFF3D] @ asc ''x''
       @ [0xFF3B, 0xFF03, 0x592A, 0x5B57, 0x7D42, 0x308F, 0x308A, 0xFF3D] @ asc ''y''
       @ [0xFF3B, 0xFF03, 0x592A, 0x5B57, 0xFF3D] @ asc ''z''
       @ [0xFF3B, 0xFF03, 0x592A, 0x5B57, 0x7D42, 0x308F, 0x308A, 0xFF3D]"
  by (simp add: re_defs conv_defs)

lemma imgToAozora_test_basic:
  "imgToAozora resolveNone (NewHTMLConverter [])
     (asc ''<img src='' @ [34] @ asc ''t.jpg'' @ [34] @ asc '' alt='' @ [34] @ asc ''x'' @ [34] @ asc ''>'')
   = [0xFF3B, 0xFF03, 0x633F, 0x7D75, 0xFF08] @ asc ''t.jpg'' @ [0xFF09, 0x5165, 0x308B, 0xFF3D]"
  by (simp add: re_defs conv_defs)

lemma emToSesame_test_basic:
  "emToSesame (asc ''<em class='' @ [34] @ asc ''emphasisDots'' @ [34] @ asc ''>x</em>'')
   = [0xFF3B, 0xFF03, 0x508D, 0x70B9, 0xFF3D] @ asc ''x''
       @ [0xFF3B, 0xFF03, 0x508D, 0x70B9, 0x7D42, 0x308F, 0x308A, 0xFF3D]"
  by (simp add: re_defs conv_defs)

lemma deleteTag_test_basic: "deleteTag (asc ''<p>a<span>b</span>c</p>'') = asc ''abc''"
  by (simp add: re_defs conv_defs)

lemma restoreHTMLEntity_test_named:
  "restoreHTMLEntity replacements (asc ''&amp;&lt;&gt;&quot;&apos;'') = asc ''&<>'' @ [34, 39]"
  by (simp add: re_defs conv_defs replacements_def)

lemma restoreHTMLEntity_test_decimal:
  "restoreHTMLEntity replacements (asc ''&#65;&#66;&#67;'') = asc ''ABC''"
  by (simp add: re_defs conv_defs replacements_def)

lemma restoreHTMLEntity_test_hex:
  "restoreHTMLEntity replacements (asc ''&#x41;&#x42;&#x43;'') = asc ''ABC''"
  by (simp add: re_defs conv_defs replacements_def)

lemma restoreHTMLEntity_test_symbols:
  "restoreHTMLEntity replacements (asc ''&hellip;&mdash;&ndash;'') = [0x2026, 0x2014, 0x2013]"
  by (simp add: re_defs conv_defs replacements_def)

section \<open>C2: the conversion is deterministic\<close>

text \<open>
  C2 (the code departs from it). The claim: two runs of the full conversion on the same
  text and configuration give the same text. The entity pass ranges over a Go map, whose
  iteration order is not fixed. On the text \<^verbatim>\<open>&amp;lt;\<close> a run that visits
  \<^verbatim>\<open>&amp;\<close> before \<^verbatim>\<open>&lt;\<close> returns \<^verbatim>\<open><\<close>, and a run that visits them the
  other way round returns \<^verbatim>\<open>&lt;\<close>: same text, same converter, two results. Both
  orders list the same entries.
\<close>

theorem ToAozora_depends_on_map_order:
  "mset (rev replacements) = mset replacements
   \<and> ToAozora resolveNone replacements (NewHTMLConverter (asc ''&amp;lt;'')) False = asc ''<''
   \<and> ToAozora resolveNone (rev replacements) (NewHTMLConverter (asc ''&amp;lt;'')) False
       = asc ''&lt;''"
proof -
  have a: "ToAozora resolveNone replacements (NewHTMLConverter (asc ''&amp;lt;'')) False
             = asc ''<''"
    unfolding ToAozora_passes by (simp add: re_defs conv_defs replacements_def)
  have b: "ToAozora resolveNone (rev replacements) (NewHTMLConverter (asc ''&amp;lt;'')) False
             = asc ''&lt;''"
    unfolding ToAozora_passes by (simp add: re_defs conv_defs replacements_def)
  show ?thesis using a b by simp
qed

section \<open>C3: line break tags\<close>

text \<open>
  C3 (the code departs from it). The claim: \<open>brToAozora\<close> removes the literal CR and LF
  and then rewrites every line break tag, in any letter case, with or without the
  closing slash, into one line feed. The lower-case tags are rewritten; an upper-case
  \<^verbatim>\<open><BR>\<close> is left as it is, because the pattern of this pass has no \<^verbatim>\<open>(?i)\<close>,
  which the patterns of the passes after it have. The full conversion then deletes the
  tag with the other tags, and the line break is lost.
\<close>

theorem brToAozora_upper_case_kept:
  "brToAozora (asc ''a'' @ [CR, LF] @ asc ''<br>b<br />'') = asc ''a'' @ [LF] @ asc ''b'' @ [LF]
   \<and> brToAozora (asc ''a<BR>b'') = asc ''a<BR>b''
   \<and> ToAozora resolveNone replacements (NewHTMLConverter (asc ''a<BR>b'')) False = asc ''ab''"
proof -
  have a: "brToAozora (asc ''a'' @ [CR, LF] @ asc ''<br>b<br />'')
             = asc ''a'' @ [LF] @ asc ''b'' @ [LF]"
    by (simp add: re_defs conv_defs)
  have b: "brToAozora (asc ''a<BR>b'') = asc ''a<BR>b''"
    by (simp add: re_defs conv_defs)
  have c: "ToAozora resolveNone replacements (NewHTMLConverter (asc ''a<BR>b'')) False = asc ''ab''"
    unfolding ToAozora_passes by (simp add: re_defs conv_defs replacements_def)
  show ?thesis using a b c by simp
qed

section \<open>C5: a pattern that does not compile\<close>

text \<open>
  C5 (the code departs from it). The claim: when the custom pattern does not compile,
  \<open>SetIllustSetting\<close> returns an error and leaves both the stored base URL and the stored
  pattern as they were. The pattern is kept, but the base URL is assigned before the
  pattern is compiled: after the failed call the converter holds the new base URL.
\<close>

theorem SetIllustSetting_error_keeps_new_URL:
  "grepPattern \<noteq> [] \<Longrightarrow> compile grepPattern = Inl err \<Longrightarrow>
     SetIllustSetting compile h currentURL grepPattern
       = (Some (InvalidGrepPattern err), h\<lparr>illustCurrentURL := currentURL\<rparr>)"
  by (simp add: SetIllustSetting_def)

theorem SetIllustSetting_error_keeps_new_URL_witness:
  "asc ''('' \<noteq> []
   \<and> (Inl (asc ''missing closing )'') :: str + regex) = Inl (asc ''missing closing )'')
   \<and> SetIllustSetting (\<lambda>p. Inl (asc ''missing closing )'')) (NewHTMLConverter [])
         (asc ''http://b/'') (asc ''('')
       = (Some (InvalidGrepPattern (asc ''missing closing )'')),
          (NewHTMLConverter [])\<lparr>illustCurrentURL := asc ''http://b/''\<rparr>)
   \<and> illustCurrentURL (snd (SetIllustSetting (\<lambda>p. Inl (asc ''missing closing )''))
         (NewHTMLConverter []) (asc ''http://b/'') (asc ''('')))
       \<noteq> illustCurrentURL (NewHTMLConverter [])"
  using SetIllustSetting_error_keeps_new_URL
          [of "asc ''(''" "\<lambda>p. Inl (asc ''missing closing )'')" "asc ''missing closing )''"
              "NewHTMLConverter []" "asc ''http://b/''"]
  by (simp add: asc_def NewHTMLConverter_def)

section \<open>C8: encoding and restoring\<close>

text \<open>
  The encoder of the claim, following the words of the specification (the source has no
  encoder): each of the five reserved runes becomes its named entity.
\<close>

definition encodeRune :: "rune \<Rightarrow> str" where
  "encodeRune c =
     (if c = 38 then asc ''&amp;''
      else if c = 60 then asc ''&lt;''
      else if c = 62 then asc ''&gt;''
      else if c = 34 then asc ''&quot;''
      else if c = 39 then asc ''&apos;''
      else [c])"

definition encodeEntities :: "str \<Rightarrow> str" where
  "encodeEntities s = concat (map encodeRune s)"

text \<open>
  C8 (the code departs from it). The claim: encoding the reserved runes of a text and
  restoring gives the text back. The text \<^verbatim>\<open>&#65;\<close> is encoded as \<^verbatim>\<open>&amp;#65;\<close>;
  the named entities are restored first, which gives \<^verbatim>\<open>&#65;\<close> again, and the pass
  for the numeric references, which runs after, turns it into \<^verbatim>\<open>A\<close>: this in
  whichever order the table is visited. The text \<^verbatim>\<open>&lt;\<close> comes back as \<^verbatim>\<open><\<close>
  when \<^verbatim>\<open>&amp;\<close> is visited before \<^verbatim>\<open>&lt;\<close>.
\<close>

theorem restore_after_encode_differs:
  "encodeEntities (asc ''&#65;'') = asc ''&amp;#65;''
   \<and> restoreHTMLEntity replacements (encodeEntities (asc ''&#65;'')) = asc ''A''
   \<and> restoreHTMLEntity (rev replacements) (encodeEntities (asc ''&#65;'')) = asc ''A''
   \<and> restoreHTMLEntity replacements (encodeEntities (asc ''&lt;'')) = asc ''<''"
proof -
  have e: "encodeEntities (asc ''&#65;'') = asc ''&amp;#65;''"
    by (simp add: encodeEntities_def encodeRune_def asc_def)
  have f: "encodeEntities (asc ''&lt;'') = asc ''&amp;lt;''"
    by (simp add: encodeEntities_def encodeRune_def asc_def)
  have a: "restoreHTMLEntity replacements (asc ''&amp;#65;'') = asc ''A''"
    by (simp add: re_defs conv_defs replacements_def)
  have b: "restoreHTMLEntity (rev replacements) (asc ''&amp;#65;'') = asc ''A''"
    by (simp add: re_defs conv_defs replacements_def)
  have c: "restoreHTMLEntity replacements (asc ''&amp;lt;'') = asc ''<''"
    by (simp add: re_defs conv_defs replacements_def)
  show ?thesis using a b c by (simp add: e f)
qed

section \<open>C4: residual tags\<close>

text \<open>
  What the pattern \<^verbatim>\<open><.+?>\<close> matches, written without the pattern. \<open>closes s\<close>: a
  \<^verbatim>\<open>>\<close> comes in \<open>s\<close> before any line feed; \<open>gtLen s\<close>: the length of \<open>s\<close> up to
  and with its first \<^verbatim>\<open>>\<close>. \<open>tagAt s\<close>: \<open>s\<close> starts with \<^verbatim>\<open><\<close>, a rune that is
  not a line feed, and a text that closes. \<open>hasTag s\<close>: such a tag starts somewhere in
  \<open>s\<close>.
\<close>

fun closes :: "str \<Rightarrow> bool" where
  "closes [] = False"
| "closes (x # xs) = (x = 62 \<or> (x \<noteq> 10 \<and> closes xs))"

fun gtLen :: "str \<Rightarrow> nat" where
  "gtLen [] = 0"
| "gtLen (x # xs) = (if x = 62 then 1 else Suc (gtLen xs))"

fun tagAt :: "str \<Rightarrow> bool" where
  "tagAt (x # y # ys) = (x = 60 \<and> y \<noteq> 10 \<and> closes ys)"
| "tagAt s = False"

fun hasTag :: "str \<Rightarrow> bool" where
  "hasTag [] = False"
| "hasTag (x # xs) = (tagAt (x # xs) \<or> hasTag xs)"

lemma star_gt:
  "rmatch [Star Dot Lazy, Ch (OneOf [62])] s k c
     = (if closes s then Some (k + gtLen s, c) else None)"
  by (induction s arbitrary: k) auto

lemma tag_rmatch:
  "rmatch tagPattern s k c = (if tagAt s then Some (k + 2 + gtLen (drop 2 s), c) else None)"
proof (cases s)
  case Nil
  then show ?thesis by (simp add: tagPattern_def lit_def)
next
  case (Cons x xs)
  then show ?thesis
    by (cases xs) (auto simp: tagPattern_def lit_def star_gt simp del: rmatch.simps(3))
qed

lemma gtLen_pos: "closes s \<Longrightarrow> 0 < gtLen s"
  by (cases s) auto

lemma closes_append: "closes a \<Longrightarrow> closes (a @ b)"
  by (induction a) auto

lemma closes_append2: "10 \<notin> set a \<Longrightarrow> closes b \<Longrightarrow> closes (a @ b)"
  by (induction a) auto

lemma closes_appendD: "closes (a @ b) \<Longrightarrow> closes a \<or> (10 \<notin> set a \<and> closes b)"
  by (induction a) auto

lemma tagAt_closes: "tagAt s \<Longrightarrow> closes s"
  by (cases s rule: tagAt.cases) auto

lemma tagAt_append: "tagAt s \<Longrightarrow> tagAt (s @ r)"
  by (cases s rule: tagAt.cases) (auto simp: closes_append)

lemma tagAt_extend:
  assumes "tagAt suf" and "tagAt (x # pre @ r)"
  shows "tagAt (x # pre @ suf)"
proof (cases pre)
  case Nil
  with assms show ?thesis
    by (cases suf rule: tagAt.cases; cases r) (auto simp: closes_append)
next
  case (Cons y zs)
  with assms(2) have x: "x = 60" "y \<noteq> 10" and c: "closes (zs @ r)" by auto
  from closes_appendD [OF c] show ?thesis
  proof
    assume "closes zs"
    then show ?thesis using x Cons by (simp add: closes_append)
  next
    assume "10 \<notin> set zs \<and> closes r"
    then show ?thesis using x Cons tagAt_closes [OF assms(1)] by (simp add: closes_append2)
  qed
qed

lemma find_tag_None: "(find tagPattern s = None) = (\<not> hasTag s)"
  by (induction s) (auto simp: tag_rmatch split: option.splits)

lemma find_tag_Some:
  "find tagPattern s = Some (pre, ms, rest) \<Longrightarrow>
     \<exists>suf. s = pre @ suf \<and> tagAt suf \<and> hd ms \<noteq> [] \<and> length rest < length s
           \<and> (\<forall>r. hasTag (pre @ r) = hasTag r)"
proof (induction s arbitrary: pre)
  case Nil
  then show ?case by (simp add: tag_rmatch)
next
  case (Cons x xs)
  show ?case
  proof (cases "tagAt (x # xs)")
    case True
    with Cons.prems have "pre = []" "hd ms = take (2 + gtLen (drop 2 (x # xs))) (x # xs)"
      "rest = drop (2 + gtLen (drop 2 (x # xs))) (x # xs)"
      by (auto simp: tag_rmatch submatches_def)
    with True show ?thesis by auto
  next
    case False
    with Cons.prems obtain pre' where f: "find tagPattern xs = Some (pre', ms, rest)"
      and p: "pre = x # pre'"
      by (auto simp: tag_rmatch split: option.splits)
    from Cons.IH [OF f] obtain suf where s: "xs = pre' @ suf" "tagAt suf" "hd ms \<noteq> []"
      "length rest < length xs" "\<And>r. hasTag (pre' @ r) = hasTag r"
      by blast
    have "\<not> tagAt (x # pre' @ r)" for r
      using tagAt_extend [OF s(2), of x pre' r] False s(1) by auto
    with s p show ?thesis by auto
  qed
qed

lemma strip_unfold:
  "replaceAll tagPattern (\<lambda>ms. []) b [] s =
     (case find tagPattern s of
        None \<Rightarrow> s
      | Some (pre, ms, rest) \<Rightarrow> pre @ replaceAll tagPattern (\<lambda>ms. []) False [] rest)"
proof (cases "find tagPattern s")
  case None
  then show ?thesis by (simp add: replaceAll.simps)
next
  case (Some r)
  obtain pre ms rest where r: "r = (pre, ms, rest)" by (cases r)
  from find_tag_Some [OF Some [unfolded r]] have "hd ms \<noteq> []" by blast
  with Some r show ?thesis
    by (subst replaceAll.simps) simp
qed

lemma strip_no_tag: "\<not> hasTag (replaceAll tagPattern (\<lambda>ms. []) b [] s)"
proof (induction s arbitrary: b rule: length_induct)
  case (1 s)
  show ?case
  proof (cases "find tagPattern s")
    case None
    then have e: "replaceAll tagPattern (\<lambda>ms. []) b [] s = s" by (simp add: strip_unfold)
    from None have "\<not> hasTag s" by (simp add: find_tag_None)
    then show ?thesis unfolding e .
  next
    case (Some r)
    obtain pre ms rest where r: "r = (pre, ms, rest)" by (cases r)
    from find_tag_Some [OF Some [unfolded r]]
    have l: "length rest < length s" and h: "\<And>r. hasTag (pre @ r) = hasTag r" by blast+
    from "1.IH" l have "\<not> hasTag (replaceAll tagPattern (\<lambda>ms. []) False [] rest)" by blast
    with Some r h show ?thesis by (simp add: strip_unfold)
  qed
qed

lemma closes_split: "closes s \<Longrightarrow> \<exists>a v. s = a @ 62 # v \<and> 10 \<notin> set a"
proof (induction s)
  case Nil
  then show ?case by simp
next
  case (Cons x xs)
  show ?case
  proof (cases "x = 62")
    case True
    then have "x # xs = [] @ 62 # xs \<and> 10 \<notin> set []" by simp
    then show ?thesis by blast
  next
    case False
    with Cons obtain a v where "xs = a @ 62 # v" "10 \<notin> set a" "x \<noteq> 10" by auto
    then have "x # xs = (x # a) @ 62 # v \<and> 10 \<notin> set (x # a)" by simp
    then show ?thesis by blast
  qed
qed

lemma hasTag_append: "hasTag t \<Longrightarrow> hasTag (u @ t)"
  by (induction u) auto

lemma tagAt_hasTag: "tagAt t \<Longrightarrow> hasTag t"
  by (cases t) auto

lemma hasTag_iff:
  "hasTag s = (\<exists>u m v. s = u @ [60] @ m @ [62] @ v \<and> m \<noteq> [] \<and> 10 \<notin> set m)"
proof
  assume "hasTag s"
  then show "\<exists>u m v. s = u @ [60] @ m @ [62] @ v \<and> m \<noteq> [] \<and> 10 \<notin> set m"
  proof (induction s)
    case Nil
    then show ?case by simp
  next
    case (Cons x xs)
    show ?case
    proof (cases "tagAt (x # xs)")
      case True
      then obtain y ys where xs: "xs = y # ys" "x = 60" "y \<noteq> 10" "closes ys"
        by (cases xs) auto
      from closes_split [OF xs(4)] obtain a v where "ys = a @ 62 # v" "10 \<notin> set a" by blast
      with xs have "x # xs = [] @ [60] @ (y # a) @ [62] @ v \<and> y # a \<noteq> [] \<and> 10 \<notin> set (y # a)"
        by simp
      then show ?thesis by blast
    next
      case False
      with Cons obtain u m v where "xs = u @ [60] @ m @ [62] @ v" "m \<noteq> []" "10 \<notin> set m"
        by auto
      then have "x # xs = (x # u) @ [60] @ m @ [62] @ v \<and> m \<noteq> [] \<and> 10 \<notin> set m" by simp
      then show ?thesis by blast
    qed
  qed
next
  assume "\<exists>u m v. s = u @ [60] @ m @ [62] @ v \<and> m \<noteq> [] \<and> 10 \<notin> set m"
  then obtain u m v where s: "s = u @ [60] @ m @ [62] @ v" "m \<noteq> []" "10 \<notin> set m" by blast
  then obtain y ys where m: "m = y # ys" by (cases m) auto
  with s have "closes (ys @ 62 # v)" by (intro closes_append2) auto
  with s m have "tagAt ([60] @ m @ [62] @ v)" by auto
  then show "hasTag s" unfolding s(1) by (intro hasTag_append tagAt_hasTag)
qed

lemma expand_Nil: "expand [] = (\<lambda>ms. [])"
  by (rule ext) simp

lemma deleteTag_strip: "deleteTag t = replaceAll tagPattern (\<lambda>ms. []) True [] t"
  by (simp only: deleteTag_def ReplaceAllString_def expand_Nil)

text \<open>
  The removal in the words of the amended claim: going through the text from left to
  right, a \<^verbatim>\<open><\<close> that is followed by a rune other than a line feed and, after that
  rune, by a \<^verbatim>\<open>>\<close> with no line feed before it, is dropped with everything up to and
  with that \<^verbatim>\<open>>\<close>; any other rune is kept. \<open>afterGt s\<close> is the text after the first
  \<^verbatim>\<open>>\<close> of \<open>s\<close>.
\<close>

fun afterGt :: "str \<Rightarrow> str" where
  "afterGt [] = []"
| "afterGt (x # xs) = (if x = 62 then xs else afterGt xs)"

lemma length_afterGt: "length (afterGt s) \<le> length s"
  by (induction s) auto

function stripTags :: "str \<Rightarrow> str" where
  "stripTags [] = []"
| "stripTags [x] = [x]"
| "stripTags (x # y # ys) =
     (if x = 60 \<and> y \<noteq> 10 \<and> closes ys then stripTags (afterGt ys)
      else x # stripTags (y # ys))"
  by pat_completeness auto
termination
  by (relation "measure length") (auto simp: less_Suc_eq_le le_SucI length_afterGt)

lemma drop_gtLen: "closes s \<Longrightarrow> drop (gtLen s) s = afterGt s"
  by (induction s) auto

lemma strip_step:
  "replaceAll tagPattern (\<lambda>ms. []) b [] (x # xs) =
     (if tagAt (x # xs)
      then replaceAll tagPattern (\<lambda>ms. []) False [] (drop (2 + gtLen (drop 2 (x # xs))) (x # xs))
      else x # replaceAll tagPattern (\<lambda>ms. []) False [] xs)"
proof (cases "tagAt (x # xs)")
  case True
  then show ?thesis
    by (simp add: strip_unfold tag_rmatch submatches_def)
next
  case False
  then show ?thesis
    by (simp add: strip_unfold [of b "x # xs"] strip_unfold [of False xs] tag_rmatch
          split: option.splits)
qed

lemma strip_Nil: "replaceAll tagPattern (\<lambda>ms. []) b [] [] = []"
  by (simp add: strip_unfold tag_rmatch)

lemma strip_stripTags: "replaceAll tagPattern (\<lambda>ms. []) b [] s = stripTags s"
proof (induction s arbitrary: b rule: stripTags.induct)
  case 1
  show ?case by (simp add: strip_Nil)
next
  case (2 x)
  show ?case by (simp add: strip_step strip_Nil)
next
  case (3 x y ys)
  show ?case
  proof (cases "x = 60 \<and> y \<noteq> 10 \<and> closes ys")
    case True
    have "replaceAll tagPattern (\<lambda>ms. []) b [] (x # y # ys)
            = replaceAll tagPattern (\<lambda>ms. []) False [] (afterGt ys)"
      by (subst strip_step) (use True in \<open>simp add: drop_gtLen\<close>)
    also have "\<dots> = stripTags (afterGt ys)"
      by (rule 3(1) [OF True])
    finally show ?thesis using True by simp
  next
    case False
    have "replaceAll tagPattern (\<lambda>ms. []) b [] (x # y # ys)
            = x # replaceAll tagPattern (\<lambda>ms. []) False [] (y # ys)"
      by (subst strip_step) (use False in auto)
    also have "\<dots> = x # stripTags (y # ys)"
      by (simp only: 3(2) [OF False])
    finally show ?thesis using False by auto
  qed
qed

text \<open>
  C4, as amended. \<open>deleteTag\<close> goes through the text from left to right and removes
  every span made of a \<^verbatim>\<open><\<close>, one rune other than a line feed (it may be a \<^verbatim>\<open>>\<close>),
  and the runes after it up to and with the next \<^verbatim>\<open>>\<close>, provided that no line feed
  comes before that \<^verbatim>\<open>>\<close>; every other rune is kept, in order. Its result has no
  \<^verbatim>\<open><\<close> left that is followed by one or more runes other than line feeds and then a
  \<^verbatim>\<open>>\<close>.
\<close>

theorem deleteTag_removes_spans:
  "deleteTag t = stripTags t
   \<and> \<not> (\<exists>u m v. deleteTag t = u @ [60] @ m @ [62] @ v \<and> m \<noteq> [] \<and> LF \<notin> set m)"
proof -
  have 1: "deleteTag t = stripTags t"
    by (simp only: deleteTag_strip strip_stripTags)
  have 2: "\<not> hasTag (deleteTag t)"
    by (simp only: deleteTag_strip strip_no_tag not_False_eq_True)
  from 1 2 show ?thesis unfolding hasTag_iff LF_def by blast
qed

text \<open>
  Witness for C4: the span \<^verbatim>\<open><b>\<close> and the span \<^verbatim>\<open><>>\<close> are removed; the
  \<^verbatim>\<open><\<close> with a line feed before the next \<^verbatim>\<open>>\<close> and the \<^verbatim>\<open><\<close> with no
  \<^verbatim>\<open>>\<close> after it stay, with all the text around them.
\<close>

theorem deleteTag_removes_spans_witness:
  "deleteTag (asc ''a<b>c<'' @ [LF] @ asc ''d>e<>>f<g'') = asc ''ac<'' @ [LF] @ asc ''d>ef<g''"
  using deleteTag_removes_spans [of "asc ''a<b>c<'' @ [LF] @ asc ''d>e<>>f<g''"]
  by (simp add: asc_def LF_def)

text \<open>
  Counterexample to C4 as it is stated: a span from \<^verbatim>\<open><\<close> to \<^verbatim>\<open>>\<close> with a line feed
  inside is not removed, nor is the span \<^verbatim>\<open><>\<close> with nothing inside.
\<close>

theorem deleteTag_keeps_span_with_line_feed:
  "deleteTag (asc ''<a'' @ [LF] @ asc ''b>'') = asc ''<a'' @ [LF] @ asc ''b>''
   \<and> deleteTag (asc ''<>'') = asc ''<>''"
proof -
  have a: "deleteTag (asc ''<a'' @ [LF] @ asc ''b>'') = asc ''<a'' @ [LF] @ asc ''b>''"
    by (simp add: re_defs conv_defs)
  have b: "deleteTag (asc ''<>'') = asc ''<>''"
    by (simp add: re_defs conv_defs)
  show ?thesis using a b by simp
qed

section \<open>C1: converting plain text again\<close>

lemma strReplaceAll_absent:
  "a \<notin> set s \<Longrightarrow> strReplaceAll s (a # old) new = s"
  by (induction s) auto

text \<open>
  A pattern needs a rune of \<open>cs\<close> when one of its items is a rune of \<open>cs\<close>, to be
  matched once, or one or more times: such a pattern has no match in a text without
  these runes.
\<close>

definition needs :: "regex \<Rightarrow> rune list \<Rightarrow> bool" where
  "needs p cs = (Ch (OneOf cs) \<in> set p \<or> Plus (OneOf cs) Greedy \<in> set p \<or> Plus (OneOf cs) Lazy \<in> set p)"

lemma needs_Nil [simp]: "\<not> needs [] cs"
  by (simp add: needs_def)

lemma needs_Cons [simp]:
  "needs (i # p) cs =
     (i = Ch (OneOf cs) \<or> i = Plus (OneOf cs) Greedy \<or> i = Plus (OneOf cs) Lazy \<or> needs p cs)"
  by (auto simp: needs_def)

lemma needs_append [simp]: "needs (p @ q) cs = (needs p cs \<or> needs q cs)"
  by (auto simp: needs_def)

lemma rmatch_needs:
  "rmatch p s k c = Some r \<Longrightarrow> needs p cs \<Longrightarrow> \<exists>x \<in> set s. x \<in> set cs"
proof (induction p s k c arbitrary: r rule: rmatch.induct)
  case (1 s k c)
  then show ?case by simp
next
  case (2 cl p s k c)
  then show ?case
    by (cases s; cases r) (force split: if_splits)+
next
  case (3 cl g p s k c)
  then show ?case
    by (cases s; cases g; cases r) (force split: if_splits option.splits)+
next
  case (4 cl g p s k c)
  then show ?case
    by (cases s; cases g; cases r) (force split: if_splits)+
next
  case (5 cl g p s k c)
  then show ?case
    by (cases s; cases g; cases r) (force split: if_splits option.splits)+
next
  case (6 n p s k c)
  then show ?case by auto
next
  case (7 n p s k c)
  then show ?case by auto
qed

lemma find_needs:
  "needs p cs \<Longrightarrow> \<forall>x \<in> set s. x \<notin> set cs \<Longrightarrow> find p s = None"
proof (induction s)
  case Nil
  then show ?case
    by (cases "rmatch p [] 0 []") (auto dest: rmatch_needs)
next
  case (Cons x xs)
  have "rmatch p (x # xs) 0 [] = None"
  proof (cases "rmatch p (x # xs) 0 []")
    case (Some r)
    from rmatch_needs [OF Some Cons.prems(1)] Cons.prems(2) show ?thesis by auto
  qed simp
  with Cons show ?case by simp
qed

lemma replaceAll_no_match:
  "find re s = None \<Longrightarrow> replaceAll re f b [] s = s"
  by (simp add: replaceAll.simps)

lemma find_absent2:
  "needs re [a, b] \<Longrightarrow> a \<notin> set s \<Longrightarrow> b \<notin> set s \<Longrightarrow> find re s = None"
  by (rule find_needs [where cs = "[a, b]"]) auto

lemma ReplaceAllString_absent2:
  "needs re [a, b] \<Longrightarrow> a \<notin> set s \<Longrightarrow> b \<notin> set s \<Longrightarrow> ReplaceAllString re s t = s"
  by (simp add: ReplaceAllString_def replaceAll_no_match find_absent2)

lemmas pattern_defs = lit_def liti_def fold_orbit_def rubyPattern_def tagPattern_def emPattern_def
  decRefPattern_def hexRefPattern_def defaultIllustPattern_def

text \<open>
  The texts that a pattern can match, told without the matcher: \<open>lang p m\<close> holds when
  the text \<open>m\<close> is made of one piece for each item of \<open>p\<close>, in order. What the
  matcher matches is such a text.
\<close>

fun lang :: "regex \<Rightarrow> str \<Rightarrow> bool" where
  "lang [] m = (m = [])"
| "lang (Ch cl # p) m = (\<exists>x m'. m = x # m' \<and> accepts cl x \<and> lang p m')"
| "lang (Star cl g # p) m = (\<exists>a b. m = a @ b \<and> (\<forall>x \<in> set a. accepts cl x) \<and> lang p b)"
| "lang (Plus cl g # p) m =
     (\<exists>a b. m = a @ b \<and> a \<noteq> [] \<and> (\<forall>x \<in> set a. accepts cl x) \<and> lang p b)"
| "lang (Quest cl g # p) m = (lang p m \<or> (\<exists>x m'. m = x # m' \<and> accepts cl x \<and> lang p m'))"
| "lang (GOpen n # p) m = lang p m"
| "lang (GClose n # p) m = lang p m"

lemma lang_Star_Cons:
  "accepts cl x \<Longrightarrow> lang (Star cl g # p) m \<Longrightarrow> lang (Star cl g # p) (x # m)"
proof -
  assume x: "accepts cl x" and "lang (Star cl g # p) m"
  then obtain a b where "m = a @ b" "\<forall>y \<in> set a. accepts cl y" "lang p b" by auto
  with x have "x # m = (x # a) @ b \<and> (\<forall>y \<in> set (x # a). accepts cl y) \<and> lang p b" by simp
  then show ?thesis unfolding lang.simps by blast
qed

lemma lang_Star_skip: "lang p m \<Longrightarrow> lang (Star cl g # p) m"
proof -
  assume "lang p m"
  then have "m = [] @ m \<and> (\<forall>y \<in> set []. accepts cl y) \<and> lang p m" by simp
  then show ?thesis unfolding lang.simps by blast
qed

lemma lang_Plus_Cons:
  "accepts cl x \<Longrightarrow> lang (Star cl g # p) m \<Longrightarrow> lang (Plus cl g # p) (x # m)"
proof -
  assume x: "accepts cl x" and "lang (Star cl g # p) m"
  then obtain a b where "m = a @ b" "\<forall>y \<in> set a. accepts cl y" "lang p b" by auto
  with x have "x # m = (x # a) @ b \<and> x # a \<noteq> [] \<and> (\<forall>y \<in> set (x # a). accepts cl y) \<and> lang p b"
    by simp
  then show ?thesis unfolding lang.simps by blast
qed

lemma take_Suc_diff: "Suc k \<le> n \<Longrightarrow> take (n - k) (x # xs) = x # take (n - Suc k) xs"
  by (simp add: take_Cons' Suc_diff_le)

lemma rmatch_lang:
  "rmatch p s k c = Some (n, c') \<Longrightarrow> lang p (take (n - k) s)"
proof (induction "length p + length s" arbitrary: p s k c rule: less_induct)
  case less
  note IH = less.hyps [rotated]
  show ?case
  proof (cases p)
    case Nil
    with less.prems show ?thesis by simp
  next
    case (Cons i q)
    have E: "accepts cl x \<and> take (n - k) s = x # take (n - Suc k) xs
               \<and> lang r (take (n - Suc k) xs) \<and> s = x # xs"
      if A: "s = x # xs" "accepts cl x" "rmatch r xs (Suc k) c = Some (n, c')"
        and C: "length r \<le> length p" for cl r x xs
    proof -
      have le: "Suc k \<le> n" by (rule rmatch_mono [OF A(3)])
      have "lang r (take (n - Suc k) xs)"
        using A(3) by (rule IH) (use C A(1) in simp)
      with le A show ?thesis by (simp add: take_Suc_diff)
    qed
    have S: "lang q (take (n - k) s)" if "rmatch q s k c0 = Some (n, c')" for c0
      using that by (rule IH) (simp add: Cons)
    show ?thesis
    proof (cases i)
      case (Ch cl)
      from less.prems obtain x xs where
        "s = x # xs" "accepts cl x" "rmatch q xs (Suc k) c = Some (n, c')"
        unfolding Cons Ch by (cases s) (auto split: if_splits)
      from E [OF this] Cons show ?thesis unfolding Cons Ch by auto
    next
      case (Star cl g)
      from less.prems have
        "rmatch q s k c = Some (n, c')
         \<or> (\<exists>x xs. s = x # xs \<and> accepts cl x \<and> rmatch (Star cl g # q) xs (Suc k) c = Some (n, c'))"
        unfolding Cons Star by (cases s; cases g) (auto split: if_splits option.splits)
      then show ?thesis
      proof
        assume "rmatch q s k c = Some (n, c')"
        from S [OF this] show ?thesis unfolding Cons Star by (rule lang_Star_skip)
      next
        assume "\<exists>x xs. s = x # xs \<and> accepts cl x \<and> rmatch (Star cl g # q) xs (Suc k) c = Some (n, c')"
        then obtain x xs where
          a: "s = x # xs" "accepts cl x" "rmatch (Star cl g # q) xs (Suc k) c = Some (n, c')"
          by blast
        from E [OF a] Cons Star
        have "accepts cl x" "take (n - k) s = x # take (n - Suc k) xs"
          "lang (Star cl g # q) (take (n - Suc k) xs)" by auto
        then show ?thesis unfolding Cons Star by (simp only: lang_Star_Cons)
      qed
    next
      case (Plus cl g)
      from less.prems obtain x xs where
        a: "s = x # xs" "accepts cl x" "rmatch (Star cl g # q) xs (Suc k) c = Some (n, c')"
        unfolding Cons Plus by (cases s) (auto split: if_splits)
      from E [OF a] Cons Plus
      have "accepts cl x" "take (n - k) s = x # take (n - Suc k) xs"
        "lang (Star cl g # q) (take (n - Suc k) xs)" by auto
      then show ?thesis unfolding Cons Plus by (simp only: lang_Plus_Cons)
    next
      case (Quest cl g)
      from less.prems have
        "rmatch q s k c = Some (n, c')
         \<or> (\<exists>x xs. s = x # xs \<and> accepts cl x \<and> rmatch q xs (Suc k) c = Some (n, c'))"
        unfolding Cons Quest by (cases s; cases g) (auto split: if_splits option.splits)
      then show ?thesis
      proof
        assume "rmatch q s k c = Some (n, c')"
        from S [OF this] show ?thesis unfolding Cons Quest by simp
      next
        assume "\<exists>x xs. s = x # xs \<and> accepts cl x \<and> rmatch q xs (Suc k) c = Some (n, c')"
        then obtain x xs where
          a: "s = x # xs" "accepts cl x" "rmatch q xs (Suc k) c = Some (n, c')"
          by blast
        from E [OF a] Cons show ?thesis unfolding Cons Quest by auto
      qed
    next
      case (GOpen m)
      then show ?thesis
        using less.prems S [of "capOpen m k c"] unfolding Cons by simp
    next
      case (GClose m)
      then show ?thesis
        using less.prems S [of "capClose m k c"] unfolding Cons by simp
    qed
  qed
qed


text \<open>
  A pattern is tag-shaped when it has a \<^verbatim>\<open><\<close> to be matched, after it only items
  that match no line feed, at least one of them to be matched once or more, and then a
  \<^verbatim>\<open>>\<close> to be matched. Every pattern of the passes has this shape, the default
  illustration pattern too. A text that such a pattern matches has a tag span in it, so
  that the pattern matches nowhere in a text without tag spans.
\<close>

fun noLF :: "item \<Rightarrow> bool" where
  "noLF (Ch cl) = (\<not> accepts cl 10)"
| "noLF (Star cl g) = (\<not> accepts cl 10)"
| "noLF (Plus cl g) = (\<not> accepts cl 10)"
| "noLF (Quest cl g) = (\<not> accepts cl 10)"
| "noLF (GOpen n) = True"
| "noLF (GClose n) = True"

fun mandatory :: "item \<Rightarrow> bool" where
  "mandatory (Ch cl) = True"
| "mandatory (Plus cl g) = True"
| "mandatory i = False"

fun closesTag :: "regex \<Rightarrow> bool \<Rightarrow> bool" where
  "closesTag [] seen = False"
| "closesTag (i # p) seen =
     ((seen \<and> i = Ch (OneOf [62])) \<or> (noLF i \<and> closesTag p (seen \<or> mandatory i)))"

fun tagShaped :: "regex \<Rightarrow> bool" where
  "tagShaped [] = False"
| "tagShaped (i # p) = ((i = Ch (OneOf [60]) \<and> closesTag p False) \<or> tagShaped p)"

lemma lang_tail: "lang (i # p) m \<Longrightarrow> \<exists>a b. m = a @ b \<and> lang p b"
proof (cases i)
  case (Ch cl)
  assume "lang (i # p) m"
  with Ch obtain x m' where "m = [x] @ m'" "lang p m'" by auto
  then show ?thesis by blast
next
  case (Star cl g)
  assume "lang (i # p) m"
  with Star show ?thesis by auto
next
  case (Plus cl g)
  assume "lang (i # p) m"
  with Plus show ?thesis by auto
next
  case (Quest cl g)
  assume "lang (i # p) m"
  with Quest have "lang p m \<or> (\<exists>x m'. m = [x] @ m' \<and> lang p m')" by auto
  then show ?thesis by (metis append_Nil)
next
  case (GOpen n)
  assume "lang (i # p) m"
  with GOpen have "m = [] @ m \<and> lang p m" by simp
  then show ?thesis by blast
next
  case (GClose n)
  assume "lang (i # p) m"
  with GClose have "m = [] @ m \<and> lang p m" by simp
  then show ?thesis by blast
qed

lemma closesTag_lang:
  "closesTag p seen \<Longrightarrow> lang p m \<Longrightarrow>
     \<exists>mm rest. m = mm @ 62 # rest \<and> 10 \<notin> set mm \<and> (seen \<or> mm \<noteq> [])"
proof (induction p arbitrary: m seen)
  case Nil
  then show ?case by simp
next
  case (Cons i p)
  show ?case
  proof (cases "seen \<and> i = Ch (OneOf [62])")
    case True
    with Cons.prems(2) obtain m' where "m = [] @ 62 # m'" by auto
    with True show ?thesis by (metis empty_iff list.set(1))
  next
    case False
    with Cons.prems(1) have n: "noLF i" and c: "closesTag p (seen \<or> mandatory i)" by auto
    have step: "\<exists>mm rest. a @ b = mm @ 62 # rest \<and> 10 \<notin> set mm \<and> (seen \<or> mm \<noteq> [])"
      if "lang p b" "10 \<notin> set a" "mandatory i \<longrightarrow> a \<noteq> []" for a b
    proof -
      from Cons.IH [OF c that(1)] obtain mm rest where
        b: "b = mm @ 62 # rest" "10 \<notin> set mm" "seen \<or> mandatory i \<or> mm \<noteq> []" by blast
      with that have "a @ b = (a @ mm) @ 62 # rest \<and> 10 \<notin> set (a @ mm) \<and> (seen \<or> a @ mm \<noteq> [])"
        by auto
      then show ?thesis by blast
    qed
    show ?thesis
    proof (cases i)
      case (Ch cl)
      with Cons.prems(2) obtain x m' where m: "m = [x] @ m'" "accepts cl x" "lang p m'" by auto
      with n Ch have "10 \<notin> set [x]" by auto
      from step [OF m(3) this] m(1) show ?thesis by simp
    next
      case (Star cl g)
      with Cons.prems(2) obtain a b where m: "m = a @ b" "\<forall>x \<in> set a. accepts cl x" "lang p b"
        by auto
      with n Star have "10 \<notin> set a" by auto
      from step [OF m(3) this] m(1) Star show ?thesis by simp
    next
      case (Plus cl g)
      with Cons.prems(2) obtain a b where m: "m = a @ b" "a \<noteq> []" "\<forall>x \<in> set a. accepts cl x"
        "lang p b" by auto
      with n Plus have "10 \<notin> set a" by auto
      from step [OF m(4) this] m(1,2) show ?thesis by simp
    next
      case (Quest cl g)
      with Cons.prems(2) have "lang p m \<or> (\<exists>x m'. m = [x] @ m' \<and> accepts cl x \<and> lang p m')"
        by auto
      then show ?thesis
      proof
        assume "lang p m"
        from step [OF this, of "[]"] Quest show ?thesis by simp
      next
        assume "\<exists>x m'. m = [x] @ m' \<and> accepts cl x \<and> lang p m'"
        then obtain x m' where m: "m = [x] @ m'" "accepts cl x" "lang p m'" by blast
        with n Quest have "10 \<notin> set [x]" by auto
        from step [OF m(3) this] m(1) Quest show ?thesis by simp
      qed
    next
      case (GOpen k)
      with Cons.prems(2) have "lang p m" by simp
      from step [OF this, of "[]"] GOpen show ?thesis by simp
    next
      case (GClose k)
      with Cons.prems(2) have "lang p m" by simp
      from step [OF this, of "[]"] GClose show ?thesis by simp
    qed
  qed
qed

lemma tagShaped_lang: "tagShaped p \<Longrightarrow> lang p m \<Longrightarrow> hasTag m"
proof (induction p arbitrary: m)
  case Nil
  then show ?case by simp
next
  case (Cons i p)
  show ?case
  proof (cases "i = Ch (OneOf [60]) \<and> closesTag p False")
    case True
    with Cons.prems(2) obtain m' where m: "m = 60 # m'" "lang p m'" by auto
    from closesTag_lang [OF _ m(2), of False] True obtain mm rest where
      "m' = mm @ 62 # rest" "10 \<notin> set mm" "mm \<noteq> []" by auto
    with m have "m = [] @ [60] @ mm @ [62] @ rest \<and> mm \<noteq> [] \<and> 10 \<notin> set mm" by simp
    then show ?thesis unfolding hasTag_iff by blast
  next
    case False
    with Cons.prems(1) have t: "tagShaped p" by auto
    from lang_tail [OF Cons.prems(2)] obtain a b where "m = a @ b" "lang p b" by blast
    with Cons.IH [OF t] show ?thesis by (simp add: hasTag_append)
  qed
qed

lemma hasTag_take: "hasTag (take n s) \<Longrightarrow> hasTag s"
proof -
  assume "hasTag (take n s)"
  then obtain u m v where t: "take n s = u @ [60] @ m @ [62] @ v" "m \<noteq> []" "10 \<notin> set m"
    unfolding hasTag_iff by blast
  have "s = take n s @ drop n s" by simp
  with t have "s = u @ [60] @ m @ [62] @ (v @ drop n s)" by (metis append.assoc)
  with t show ?thesis unfolding hasTag_iff by blast
qed

lemma find_tagShaped: "tagShaped p \<Longrightarrow> \<not> hasTag t \<Longrightarrow> find p t = None"
proof (induction t)
  case Nil
  show ?case
  proof (cases "rmatch p [] 0 []")
    case None
    then show ?thesis by simp
  next
    case (Some r)
    obtain n c where "r = (n, c)" by (cases r)
    with Some rmatch_lang [of p "[]" 0 "[]" n c] have "lang p []" by simp
    from tagShaped_lang [OF Nil(1) this] show ?thesis by simp
  qed
next
  case (Cons x xs)
  have m: "rmatch p (x # xs) 0 [] = None"
  proof (cases "rmatch p (x # xs) 0 []")
    case None
    then show ?thesis .
  next
    case (Some r)
    obtain n c where "r = (n, c)" by (cases r)
    with Some rmatch_lang [of p "x # xs" 0 "[]" n c] have "lang p (take n (x # xs))" by simp
    from hasTag_take [OF tagShaped_lang [OF Cons.prems(1) this]] Cons.prems(2)
    show ?thesis by simp
  qed
  from Cons.prems(2) have "\<not> hasTag xs" by auto
  from Cons.IH [OF Cons.prems(1) this] m show ?case by simp
qed


text \<open>
  The entities that \<open>restoreHTMLEntity\<close> restores: a text has one when an entity of the
  table occurs in it, or a decimal or a hexadecimal reference.
\<close>

fun occurs :: "str \<Rightarrow> str \<Rightarrow> bool" where
  "occurs old [] = (old = [])"
| "occurs old (x # xs) = (HasPrefix (x # xs) old \<or> occurs old xs)"

definition hasEntity :: "str \<Rightarrow> bool" where
  "hasEntity t =
     (list_ex (\<lambda>(entity, char). occurs entity t) replacements
      \<or> find decRefPattern t \<noteq> None \<or> find hexRefPattern t \<noteq> None)"

lemma strReplaceAll_no_occurrence:
  "old \<noteq> [] \<Longrightarrow> \<not> occurs old t \<Longrightarrow> strReplaceAll t old new = t"
  by (induction t) auto

lemma replacements_nonempty: "(entity, char) \<in> set replacements \<Longrightarrow> entity \<noteq> []"
  by (auto simp: replacements_def asc_def)

lemma entity_loop_fixed:
  "set order \<subseteq> set replacements \<Longrightarrow> \<not> hasEntity t \<Longrightarrow>
     foldl (\<lambda>r (entity, char). strReplaceAll r entity char) t order = t"
proof (induction order)
  case Nil
  then show ?case by simp
next
  case (Cons e order)
  obtain entity char where e: "e = (entity, char)" by (cases e)
  with Cons.prems(1) have m: "(entity, char) \<in> set replacements" by auto
  with Cons.prems(2) have "\<not> occurs entity t"
    by (auto simp: hasEntity_def list_ex_iff)
  with replacements_nonempty [OF m] have "strReplaceAll t entity char = t"
    by (rule strReplaceAll_no_occurrence)
  with Cons e show ?case by simp
qed

lemma restoreHTMLEntity_fixed:
  assumes "set order \<subseteq> set replacements" and "\<not> hasEntity t"
  shows "restoreHTMLEntity order t = t"
proof -
  from assms(2) have d: "find decRefPattern t = None" and x: "find hexRefPattern t = None"
    unfolding hasEntity_def by blast+
  have 1: "ReplaceAllStringFunc decRefPattern t f = t" for f
    using d by (simp add: ReplaceAllStringFunc_def replaceAll_no_match)
  have 2: "ReplaceAllStringFunc hexRefPattern t f = t" for f
    using x by (simp add: ReplaceAllStringFunc_def replaceAll_no_match)
  show ?thesis
    by (simp add: restoreHTMLEntity_def entity_loop_fixed [OF assms] 1 2)
qed

lemma ReplaceAllString_tagShaped:
  "tagShaped re \<Longrightarrow> \<not> hasTag s \<Longrightarrow> ReplaceAllString re s t = s"
  by (simp add: ReplaceAllString_def replaceAll_no_match find_tagShaped)

lemma ReplaceAllStringFunc_tagShaped:
  "tagShaped re \<Longrightarrow> \<not> hasTag s \<Longrightarrow> ReplaceAllStringFunc re s f = s"
  by (simp add: ReplaceAllStringFunc_def replaceAll_no_match find_tagShaped)

lemma tagShaped_patterns:
  "tagShaped (lit ''<br'' @ [Star Dot Lazy] @ lit ''>'')"
  "tagShaped ([Quest (OneOf [10]) Greedy] @ liti ''</p>'')"
  "tagShaped rubyPattern"
  "tagShaped (liti ''<b>'')" "tagShaped (liti ''</b>'')"
  "tagShaped (liti ''<i>'')" "tagShaped (liti ''</i>'')"
  "tagShaped (liti ''<s>'')" "tagShaped (liti ''</s>'')"
  "tagShaped defaultIllustPattern"
  "tagShaped emPattern"
  "tagShaped tagPattern"
  by (simp_all add: pattern_defs)

lemma brToAozora_fixed:
  "\<not> hasTag t \<Longrightarrow> 13 \<notin> set t \<Longrightarrow> 10 \<notin> set t \<Longrightarrow> brToAozora t = t"
  using tagShaped_patterns(1)
  by (simp add: brToAozora_def ReplaceAllString_absent2 [where a = 13 and b = 10]
        ReplaceAllString_tagShaped)

lemma pToAozora_fixed: "\<not> hasTag t \<Longrightarrow> pToAozora t = t"
  using tagShaped_patterns(2) by (simp add: pToAozora_def ReplaceAllString_tagShaped)

lemma rubyToAozora_fixed:
  "\<not> hasTag t \<Longrightarrow> LQ \<notin> set t \<Longrightarrow> RQ \<notin> set t \<Longrightarrow> rubyToAozora t = t"
  by (simp add: rubyToAozora_def strReplaceAll_absent ReplaceAllStringFunc_tagShaped
        tagShaped_patterns(3))

lemma bToAozora_fixed: "\<not> hasTag t \<Longrightarrow> bToAozora t = t"
  by (simp add: bToAozora_def ReplaceAllString_tagShaped tagShaped_patterns(4,5))

lemma iToAozora_fixed: "\<not> hasTag t \<Longrightarrow> iToAozora t = t"
  by (simp add: iToAozora_def ReplaceAllString_tagShaped tagShaped_patterns(6,7))

lemma sToAozora_fixed: "\<not> hasTag t \<Longrightarrow> sToAozora t = t"
  by (simp add: sToAozora_def ReplaceAllString_tagShaped tagShaped_patterns(8,9))

lemma emToSesame_fixed: "\<not> hasTag t \<Longrightarrow> emToSesame t = t"
  by (simp add: emToSesame_def ReplaceAllString_tagShaped tagShaped_patterns(11))

lemma deleteTag_fixed: "\<not> hasTag t \<Longrightarrow> deleteTag t = t"
  by (simp add: deleteTag_def ReplaceAllString_tagShaped tagShaped_patterns(12))

lemma imgToAozora_fixed:
  assumes "\<not> hasTag t"
      and "case illustGrepPattern h of
             None \<Rightarrow> True
           | Some p \<Rightarrow> p = defaultIllustPattern \<or> find p t = None"
  shows "imgToAozora resolveURL h t = t"
proof (cases "illustGrepPattern h")
  case None
  then show ?thesis by (simp add: imgToAozora_def)
next
  case (Some p)
  have "find p t = None"
    using assms Some find_tagShaped [OF tagShaped_patterns(10), of t] by auto
  then have "ReplaceAllStringFunc p t f = t" for f
    by (simp add: ReplaceAllStringFunc_def replaceAll_no_match)
  with Some show ?thesis by (simp add: imgToAozora_def)
qed

text \<open>
  C1, as amended. The full conversion returns unchanged every text that has no tag span
  (no \<^verbatim>\<open><\<close> that is followed by one or more runes other than line feeds and then a
  \<^verbatim>\<open>>\<close>), none of the entities that \<open>restoreHTMLEntity\<close> restores, none of the two
  quote marks U+300A and U+300B, and (unless it is converted as pre-formatted text) no CR
  and no LF: this for every converter whose illustration pattern is the default one, or
  is absent, or matches nowhere in the text, and for every order in which the entity
  table is visited. A \<^verbatim>\<open><\<close>, a \<^verbatim>\<open>>\<close> or a \<^verbatim>\<open>&\<close> that is part of no tag and of no
  entity does not matter.
\<close>

theorem ToAozora_plain_text_fixed:
  assumes "\<not> hasTag (text0 h)" and "\<not> hasEntity (text0 h)"
      and "LQ \<notin> set (text0 h)" and "RQ \<notin> set (text0 h)"
      and "preHTML \<or> (CR \<notin> set (text0 h) \<and> LF \<notin> set (text0 h))"
      and "case illustGrepPattern h of
             None \<Rightarrow> True
           | Some p \<Rightarrow> p = defaultIllustPattern \<or> find p (text0 h) = None"
      and "set order \<subseteq> set replacements"
  shows "ToAozora resolveURL order h preHTML = text0 h"
proof -
  have br: "(if \<not> preHTML then brToAozora (text0 h) else text0 h) = text0 h"
    using assms(1,5) by (auto simp: brToAozora_fixed CR_def LF_def)
  show ?thesis
    unfolding ToAozora_passes br
    using assms
    by (simp add: pToAozora_fixed rubyToAozora_fixed bToAozora_fixed iToAozora_fixed
          sToAozora_fixed imgToAozora_fixed emToSesame_fixed deleteTag_fixed
          restoreHTMLEntity_fixed)
qed

text \<open>
  Witness for C1: a text of two lines with a \<^verbatim>\<open>&\<close>, a \<^verbatim>\<open><\<close> and, on the other
  line, a \<^verbatim>\<open>>\<close>, converted as pre-formatted text, with the default pattern and the
  table visited in reverse.
\<close>

theorem ToAozora_plain_text_fixed_witness:
  "\<not> hasTag (asc ''a & b < c'' @ [LF] @ asc ''d > e'')
   \<and> \<not> hasEntity (asc ''a & b < c'' @ [LF] @ asc ''d > e'')
   \<and> LQ \<notin> set (asc ''a & b < c'' @ [LF] @ asc ''d > e'')
   \<and> RQ \<notin> set (asc ''a & b < c'' @ [LF] @ asc ''d > e'')
   \<and> illustGrepPattern (NewHTMLConverter (asc ''a & b < c'' @ [LF] @ asc ''d > e''))
       = Some defaultIllustPattern
   \<and> set (rev replacements) \<subseteq> set replacements
   \<and> ToAozora resolveNone (rev replacements)
        (NewHTMLConverter (asc ''a & b < c'' @ [LF] @ asc ''d > e'')) True
       = asc ''a & b < c'' @ [LF] @ asc ''d > e''"
proof -
  have a: "\<not> hasTag (asc ''a & b < c'' @ [LF] @ asc ''d > e'')"
    by (simp add: asc_def LF_def)
  have b: "\<not> hasEntity (asc ''a & b < c'' @ [LF] @ asc ''d > e'')"
    by (simp add: hasEntity_def replacements_def asc_def LF_def decRefPattern_def
          hexRefPattern_def lit_def)
  have c: "LQ \<notin> set (asc ''a & b < c'' @ [LF] @ asc ''d > e'')"
      "RQ \<notin> set (asc ''a & b < c'' @ [LF] @ asc ''d > e'')"
    by (simp_all add: asc_def LF_def LQ_def RQ_def)
  have d: "illustGrepPattern (NewHTMLConverter (asc ''a & b < c'' @ [LF] @ asc ''d > e''))
       = Some defaultIllustPattern"
    by (simp add: NewHTMLConverter_def)
  from ToAozora_plain_text_fixed
          [of "NewHTMLConverter (asc ''a & b < c'' @ [LF] @ asc ''d > e'')" True
              "rev replacements" resolveNone] a b c d
  have "ToAozora resolveNone (rev replacements)
        (NewHTMLConverter (asc ''a & b < c'' @ [LF] @ asc ''d > e'')) True
       = asc ''a & b < c'' @ [LF] @ asc ''d > e''"
    by (simp add: NewHTMLConverter_def)
  with a b c d show ?thesis by simp
qed

text \<open>
  Counterexample to C1 as it is stated. The conversion of a ruby span has no tag left in
  it, and converting it again replaces its quote marks U+300A and U+300B by U+226A and
  U+226B. The conversion of \<^verbatim>\<open>a<br>b\<close> is two lines with no tag, and converting it
  again joins the two lines.
\<close>

theorem ToAozora_second_run_differs:
  "ToAozora resolveNone replacements (NewHTMLConverter (asc ''<ruby>K<rt>k</rt></ruby>'')) False
     = [BAR] @ asc ''K'' @ [LQ] @ asc ''k'' @ [RQ]
   \<and> 60 \<notin> set ([BAR] @ asc ''K'' @ [LQ] @ asc ''k'' @ [RQ])
   \<and> ToAozora resolveNone replacements
         (NewHTMLConverter ([BAR] @ asc ''K'' @ [LQ] @ asc ''k'' @ [RQ])) False
       = [BAR] @ asc ''K'' @ [LQ2] @ asc ''k'' @ [RQ2]
   \<and> [BAR] @ asc ''K'' @ [LQ2] @ asc ''k'' @ [RQ2] \<noteq> [BAR] @ asc ''K'' @ [LQ] @ asc ''k'' @ [RQ]
   \<and> ToAozora resolveNone replacements (NewHTMLConverter (asc ''a<br>b'')) False
       = asc ''a'' @ [LF] @ asc ''b''
   \<and> ToAozora resolveNone replacements (NewHTMLConverter (asc ''a'' @ [LF] @ asc ''b'')) False
       = asc ''ab''"
proof -
  have a: "ToAozora resolveNone replacements (NewHTMLConverter (asc ''<ruby>K<rt>k</rt></ruby>'')) False
     = [BAR] @ asc ''K'' @ [LQ] @ asc ''k'' @ [RQ]"
    unfolding ToAozora_passes by (simp add: re_defs conv_defs replacements_def)
  have b: "ToAozora resolveNone replacements
         (NewHTMLConverter ([BAR] @ asc ''K'' @ [LQ] @ asc ''k'' @ [RQ])) False
       = [BAR] @ asc ''K'' @ [LQ2] @ asc ''k'' @ [RQ2]"
    unfolding ToAozora_passes by (simp add: re_defs conv_defs replacements_def)
  have c: "ToAozora resolveNone replacements (NewHTMLConverter (asc ''a<br>b'')) False
       = asc ''a'' @ [LF] @ asc ''b''"
    unfolding ToAozora_passes by (simp add: re_defs conv_defs replacements_def)
  have d: "ToAozora resolveNone replacements (NewHTMLConverter (asc ''a'' @ [LF] @ asc ''b'')) False
       = asc ''ab''"
    unfolding ToAozora_passes by (simp add: re_defs conv_defs replacements_def)
  show ?thesis unfolding a b c d by (simp add: asc_def BAR_def LQ_def RQ_def LQ2_def RQ2_def)
qed

section \<open>C6: ruby spans\<close>

text \<open>
  The words of the claim. \<open>foldsTo s t\<close>: the text \<open>s\<close> is the ASCII string \<open>t\<close> in
  some letter case, as \<^verbatim>\<open>(?i)\<close> folds it. \<open>startsCI t s\<close>: the text \<open>s\<close> starts
  with \<open>t\<close> in some letter case. \<open>freeOf t a b\<close>: in the text \<open>a @ b\<close> no occurrence
  of \<open>t\<close>, in any letter case, starts within \<open>a\<close>. \<open>beforeRp s\<close>: the text \<open>s\<close> up
  to its first \<^verbatim>\<open><rp>\<close> tag, or all of it when it has none.
\<close>

definition foldsTo :: "str \<Rightarrow> string \<Rightarrow> bool" where
  "foldsTo s t = list_all2 (\<lambda>x c. x \<in> set (fold_orbit (of_char c))) s t"

definition startsCI :: "string \<Rightarrow> str \<Rightarrow> bool" where
  "startsCI t s = (length t \<le> length s \<and> foldsTo (take (length t) s) t)"

fun freeOf :: "string \<Rightarrow> str \<Rightarrow> str \<Rightarrow> bool" where
  "freeOf t [] b = True"
| "freeOf t (x # xs) b = (\<not> startsCI t (x # xs @ b) \<and> freeOf t xs b)"

definition beforeRp :: "str \<Rightarrow> str" where
  "beforeRp s = (case find (liti ''<rp>'') s of None \<Rightarrow> s | Some (pre, ms, rest) \<Rightarrow> pre)"

lemma startsCI_Nil [simp]: "startsCI [] s"
  by (simp add: startsCI_def foldsTo_def)

lemma startsCI_Cons_Nil [simp]: "\<not> startsCI (a # t) []"
  by (simp add: startsCI_def)

lemma startsCI_Cons_Cons [simp]:
  "startsCI (a # t) (x # xs) = (x \<in> set (fold_orbit (of_char a)) \<and> startsCI t xs)"
  by (auto simp: startsCI_def foldsTo_def)

lemma liti_Nil: "liti [] = []"
  by (simp add: liti_def)

lemma liti_Cons: "liti (a # t) = Ch (OneOf (fold_orbit (of_char a))) # liti t"
  by (simp add: liti_def)

lemma rmatch_liti:
  "rmatch (liti t @ p) s k c
     = (if startsCI t s then rmatch p (drop (length t) s) (k + length t) c else None)"
proof (induction t arbitrary: s k)
  case Nil
  then show ?case by (simp add: liti_Nil)
next
  case (Cons a t)
  then show ?case by (cases s) (auto simp: liti_Cons)
qed

lemma foldsTo_length: "foldsTo a t \<Longrightarrow> length a = length t"
  by (auto simp: foldsTo_def dest: list_all2_lengthD)

lemma foldsTo_startsCI: "foldsTo a t \<Longrightarrow> startsCI t (a @ b)"
  by (frule foldsTo_length) (simp add: startsCI_def)

lemma lazy_scan:
  "LF \<notin> set a \<Longrightarrow> freeOf t a b \<Longrightarrow>
     rmatch (Star Dot Lazy # GClose n # liti t) (a @ b) k c
       = rmatch (Star Dot Lazy # GClose n # liti t) b (k + length a) c"
proof (induction a arbitrary: k)
  case Nil
  then show ?case by simp
next
  case (Cons x xs)
  have "rmatch (liti t @ []) (x # xs @ b) k (capClose n k c) = None"
    using Cons.prems(2) by (subst rmatch_liti) simp
  then have "rmatch (GClose n # liti t) (x # xs @ b) k c = None" by simp
  moreover have "x \<noteq> 10" using Cons.prems(1) by (simp add: LF_def)
  ultimately have "rmatch (Star Dot Lazy # GClose n # liti t) ((x # xs) @ b) k c
      = rmatch (Star Dot Lazy # GClose n # liti t) (xs @ b) (Suc k) c"
    by simp
  also have "\<dots> = rmatch (Star Dot Lazy # GClose n # liti t) b (Suc k + length xs) c"
    using Cons.prems by (intro Cons.IH) auto
  finally show ?case by simp
qed

lemma lazy_stop:
  "foldsTo cl t \<Longrightarrow>
     rmatch (Star Dot Lazy # GClose n # liti t) (cl @ post) k c = Some (k + length t, capClose n k c)"
proof -
  assume f: "foldsTo cl t"
  have "rmatch (liti t @ []) (cl @ post) k (capClose n k c) = Some (k + length t, capClose n k c)"
    using foldsTo_startsCI [OF f] by (subst rmatch_liti) simp
  then show ?thesis by simp
qed


lemma NumSubexp_liti [simp]: "NumSubexp (liti t) = 0"
  by (induction t) (auto simp: NumSubexp_def liti_Nil liti_Cons)

lemma startsCI_append: "length t \<le> length s \<Longrightarrow> startsCI t (s @ p) = startsCI t s"
  by (simp add: startsCI_def)

lemma freeOf_append:
  "freeOf t a cl \<Longrightarrow> length t \<le> length cl \<Longrightarrow> freeOf t a (cl @ post)"
proof (induction a)
  case Nil
  then show ?case by simp
next
  case (Cons y ys)
  have "startsCI t ((y # ys @ cl) @ post) = startsCI t (y # ys @ cl)"
    using Cons.prems(2) by (intro startsCI_append) simp
  with Cons show ?case by simp
qed

lemma rmatch_span:
  assumes "foldsTo op to" and "foldsTo cl tc"
      and "C \<noteq> []" and "LF \<notin> set C" and "freeOf tc C cl"
  shows "rmatch (liti to @ [GOpen n, Plus Dot Lazy, GClose n] @ liti tc) (op @ C @ cl @ post) 0 []
           = Some (length op + length C + length cl, [(n, length op, length op + length C)])"
proof -
  obtain x xs where C: "C = x # xs" using assms(3) by (cases C) auto
  have lo: "length op = length to" and lc: "length cl = length tc"
    using foldsTo_length [OF assms(1)] foldsTo_length [OF assms(2)] by simp_all
  have x: "x \<noteq> 10" using assms(4) C by (simp add: LF_def)
  have xs: "LF \<notin> set xs" using assms(4) C by simp
  have fr: "freeOf tc xs (cl @ post)"
    using freeOf_append [OF assms(5), of post] lc C by simp
  have "rmatch (liti to @ [GOpen n, Plus Dot Lazy, GClose n] @ liti tc) (op @ C @ cl @ post) 0 []
          = rmatch ([GOpen n, Plus Dot Lazy, GClose n] @ liti tc) (C @ cl @ post) (length op) []"
    using foldsTo_startsCI [OF assms(1), of "C @ cl @ post"] lo
    by (subst rmatch_liti) simp
  also have "\<dots> = rmatch (Star Dot Lazy # GClose n # liti tc) (xs @ cl @ post) (Suc (length op))
                      [(n, length op, length op)]"
    using x by (simp add: C)
  also have "\<dots> = rmatch (Star Dot Lazy # GClose n # liti tc) (cl @ post) (Suc (length op) + length xs)
                      [(n, length op, length op)]"
    by (rule lazy_scan [OF xs fr])
  also have "\<dots> = Some (Suc (length op) + length xs + length tc,
                         capClose n (Suc (length op) + length xs) [(n, length op, length op)])"
    by (rule lazy_stop [OF assms(2)])
  finally show ?thesis by (simp add: C lc)
qed

lemma find_liti:
  "freeOf t a b \<Longrightarrow> startsCI t b \<Longrightarrow>
     find (liti t) (a @ b) = Some (a, [take (length t) b], drop (length t) b)"
proof (induction a)
  case Nil
  have "rmatch (liti t @ []) b 0 [] = Some (length t, [])"
    using Nil.prems(2) by (subst rmatch_liti) simp
  from find_at_start [OF this [simplified]] show ?case
    by (simp add: submatches_def)
next
  case (Cons x xs)
  have "rmatch (liti t @ []) (x # xs @ b) 0 [] = None"
    using Cons.prems(1) by (subst rmatch_liti) simp
  with Cons show ?case by simp
qed

lemma fold_orbit_bound: "n < 256 \<Longrightarrow> z \<in> set (fold_orbit n) \<Longrightarrow> z < 0x3000"
  by (auto simp: fold_orbit_def split: if_splits)

lemma foldsTo_ascii: "foldsTo s t \<Longrightarrow> x \<in> set s \<Longrightarrow> x < 0x3000"
  unfolding foldsTo_def
proof (induction s t rule: list_all2_induct)
  case Nil
  then show ?case by simp
next
  case (Cons y ys c cs)
  have "\<And>z. z \<in> set (fold_orbit (of_char c)) \<Longrightarrow> z < 0x3000"
    by (rule fold_orbit_bound [of "of_char c"]) simp_all
  with Cons show ?case by auto
qed

lemma Split2_beforeRp: "Split2 (liti ''<rp>'') s ! 0 = beforeRp s"
  by (simp add: Split2_def beforeRp_def split: option.splits)

lemma strReplaceAll_append_absent:
  "a \<notin> set s \<Longrightarrow> strReplaceAll (s @ t) [a] new = s @ strReplaceAll t [a] new"
  by (induction s) auto

lemma rmatch_liti_nonempty:
  assumes "rmatch (liti t @ q) s 0 [] = Some (n, c)" and "t \<noteq> []"
  shows "take n s \<noteq> []"
proof -
  from assms(1) have st: "startsCI t s"
    and r: "rmatch q (drop (length t) s) (0 + length t) [] = Some (n, c)"
    by (simp_all add: rmatch_liti split: if_splits)
  from rmatch_mono [OF r] assms(2) have "0 < n" by (cases t) auto
  moreover from st assms(2) have "s \<noteq> []" by (cases t; cases s) auto
  ultimately show ?thesis by (cases s) auto
qed

lemma find_liti_nonempty:
  "find (liti t @ q) s = Some (pre, ms, rest) \<Longrightarrow> t \<noteq> [] \<Longrightarrow> hd ms \<noteq> []"
proof (induction s arbitrary: pre)
  case Nil
  then show ?case
    by (auto simp: submatches_def split: option.splits dest: rmatch_liti_nonempty)
next
  case (Cons x xs)
  show ?case
  proof (cases "rmatch (liti t @ q) (x # xs) 0 []")
    case None
    with Cons show ?thesis by (auto split: option.splits)
  next
    case (Some r)
    obtain n c where r: "r = (n, c)" by (cases r)
    from rmatch_liti_nonempty [OF Some [unfolded r] Cons.prems(2)] Cons.prems(1) Some r
    show ?thesis by (auto simp: submatches_def)
  qed
qed

lemma replaceAll_nonempty:
  assumes "find re s = Some (pre, ms, rest)" and "hd ms \<noteq> []"
  shows "replaceAll re f b [] s = pre @ f ms @ replaceAll re f False [] rest"
  using assms by (subst replaceAll.simps) simp

lemma replaceAll_flag:
  assumes "\<And>pre ms rest. find re s = Some (pre, ms, rest) \<Longrightarrow> hd ms \<noteq> []"
  shows "replaceAll re f True [] s = replaceAll re f False [] s"
proof (cases "find re s")
  case None
  then show ?thesis by (simp add: replaceAll.simps)
next
  case (Some r)
  obtain pre ms rest where r: "r = (pre, ms, rest)" by (cases r)
  from assms [OF Some [unfolded r]] have h: "hd ms \<noteq> []" .
  show ?thesis
    by (simp only: replaceAll_nonempty [OF Some [unfolded r] h])
qed

lemma find_skip:
  "freeOf t pre s' \<Longrightarrow>
     find (liti t @ q) (pre @ s')
       = (case find (liti t @ q) s' of
            None \<Rightarrow> None
          | Some (p, ms, r) \<Rightarrow> Some (pre @ p, ms, r))"
proof (induction pre)
  case Nil
  then show ?case by (simp split: option.splits)
next
  case (Cons x xs)
  have "rmatch (liti t @ q) (x # xs @ s') 0 [] = None"
    using Cons.prems by (subst rmatch_liti) simp
  with Cons show ?case by (simp split: option.splits)
qed

text \<open>
  C6, as amended. Take a text in which a ruby span \<^verbatim>\<open><ruby>X<rt>Y</ruby>\<close> (the three
  tags in any letter case) comes after a text \<open>pre\<close> in which no opening ruby tag
  starts, where \<open>X\<close> and \<open>Y\<close> have no line feed, where \<open>pre\<close>, \<open>X\<close> and \<open>Y\<close> have none
  of the quote marks U+300A and U+300B, where no \<^verbatim>\<open><rt>\<close> starts within \<open>X\<close> and no
  closing ruby tag starts before the one of the span. Then \<open>rubyToAozora\<close> copies
  \<open>pre\<close>, writes for the span U+FF5C, the base, U+300A, the gloss, U+300B, and goes on
  with the text after the span; the base is \<open>X\<close> and the gloss is \<open>Y\<close>, each cut at its
  first \<^verbatim>\<open><rp>\<close> tag, if any, and stripped of its tags by \<open>deleteTag\<close>.
\<close>

theorem ruby_span_converted:
  assumes "foldsTo op ''<ruby>''" and "foldsTo rt ''<rt>''" and "foldsTo cl ''</ruby>''"
      and "LF \<notin> set (X @ Y)" and "LQ \<notin> set (pre @ X @ Y)" and "RQ \<notin> set (pre @ X @ Y)"
      and "freeOf ''<ruby>'' pre op"
      and "freeOf ''<rt>'' X (rt @ Y)"
      and "freeOf ''</ruby>'' (X @ rt @ Y) cl"
  shows "rubyToAozora (pre @ op @ X @ rt @ Y @ cl @ post)
           = pre @ [BAR] @ deleteTag (beforeRp X) @ [LQ] @ deleteTag (beforeRp Y) @ [RQ]
               @ rubyToAozora post"
proof -
  define s where "s = op @ X @ rt @ Y @ cl"
  define C where "C = X @ rt @ Y"
  define post' where "post' = strReplaceAll (strReplaceAll post [LQ] [LQ2]) [RQ] [RQ2]"
  have low: "\<And>x. x \<in> set op \<union> set rt \<union> set cl \<Longrightarrow> x < 0x3000"
    using assms(1-3) foldsTo_ascii by blast
  have q: "LQ \<notin> set (pre @ s)" "RQ \<notin> set (pre @ s)"
    using assms(5,6) low [of LQ] low [of RQ] by (auto simp: s_def LQ_def RQ_def)
  have lrt: "length rt = 4" using foldsTo_length [OF assms(2)] by simp
  have lop: "length op = 6" using foldsTo_length [OF assms(1)] by simp
  have Cne: "C \<noteq> []" using lrt by (auto simp: C_def)
  have "10 \<notin> set rt" using assms(2) by (auto simp: foldsTo_def fold_orbit_def list_all2_Cons2)
  then have Clf: "LF \<notin> set C" using assms(4) by (auto simp: C_def LF_def)
  have m: "rmatch rubyPattern (s @ post') 0 []
             = Some (length s, [(1, length op, length op + length C)])"
    using rmatch_span [OF assms(1,3) Cne Clf assms(9) [folded C_def], of 1 post']
    by (simp add: rubyPattern_def s_def C_def)
  have ns: "NumSubexp rubyPattern = 1"
    by (simp add: rubyPattern_def NumSubexp_def liti_def)
  have f0: "find rubyPattern (s @ post') = Some ([], [s, C], post')"
    using find_at_start [OF m] by (simp add: submatches_def ns) (simp add: s_def C_def)
  have fr: "freeOf ''<ruby>'' pre (s @ post')"
    using freeOf_append [OF assms(7), of "X @ rt @ Y @ cl @ post'"] lop by (simp add: s_def)
  have f: "find rubyPattern (pre @ s @ post') = Some (pre, [s, C], post')"
    using find_skip [OF fr, of "[GOpen 1, Plus Dot Lazy, GClose 1] @ liti ''</ruby>''"] f0
    by (simp add: rubyPattern_def)
  have ne: "hd ms \<noteq> []" if "find rubyPattern t = Some (p, ms, r)" for t p ms r
    using that unfolding rubyPattern_def by (rule find_liti_nonempty) simp
  have sne: "s \<noteq> []" using lop by (auto simp: s_def)
  have m1: "rmatch rubyPattern (s @ []) 0 []
             = Some (length s, [(1, length op, length op + length C)])"
    using rmatch_span [OF assms(1,3) Cne Clf assms(9) [folded C_def], of 1 "[]"]
    by (simp add: rubyPattern_def s_def C_def)
  have f1: "find rubyPattern s = Some ([], [s, C], [])"
    using find_at_start [OF m1 [simplified]] by (simp add: submatches_def ns) (simp add: s_def C_def)
  have sp: "Split2 (liti ''<rt>'') C = [X, Y]"
    using find_liti [OF assms(8) foldsTo_startsCI [OF assms(2)]] lrt
    by (simp add: Split2_def C_def)
  have cb: "rubyCallback s
      = [BAR] @ deleteTag (beforeRp X) @ [LQ] @ deleteTag (beforeRp Y) @ [RQ]"
    by (simp add: rubyCallback_def FindStringSubmatch_def f1 sp Let_def Split2_beforeRp)
  have sw: "strReplaceAll (strReplaceAll (pre @ s @ post) [LQ] [LQ2]) [RQ] [RQ2] = pre @ s @ post'"
    using q strReplaceAll_append_absent [of LQ "pre @ s" post "[LQ2]"]
      strReplaceAll_append_absent [of RQ "pre @ s" "strReplaceAll post [LQ] [LQ2]" "[RQ2]"]
    by (simp add: post'_def)
  have "rubyToAozora (pre @ s @ post)
          = replaceAll rubyPattern (\<lambda>ms. rubyCallback (hd ms)) True [] (pre @ s @ post')"
    by (simp add: rubyToAozora_def Let_def sw ReplaceAllStringFunc_def)
  also have "\<dots> = pre @ rubyCallback s
                      @ replaceAll rubyPattern (\<lambda>ms. rubyCallback (hd ms)) False [] post'"
    using replaceAll_nonempty [OF f, of "\<lambda>ms. rubyCallback (hd ms)" True] sne by simp
  also have "replaceAll rubyPattern (\<lambda>ms. rubyCallback (hd ms)) False [] post'
               = rubyToAozora post"
    unfolding rubyToAozora_def Let_def ReplaceAllStringFunc_def post'_def [symmetric]
    by (rule replaceAll_flag [symmetric]) (rule ne)
  finally have "rubyToAozora (pre @ s @ post)
      = pre @ ([BAR] @ deleteTag (beforeRp X) @ [LQ] @ deleteTag (beforeRp Y) @ [RQ])
          @ rubyToAozora post"
    unfolding cb .
  then show ?thesis by (simp add: s_def)
qed

lemmas span_defs = foldsTo_def fold_orbit_def beforeRp_def

text \<open>
  Witness for C6: a span with \<^verbatim>\<open><rb>\<close> and \<^verbatim>\<open><rp>\<close> tags and an upper-case opening
  tag, between two letters.
\<close>

theorem ruby_span_converted_witness:
  "foldsTo (asc ''<RUBY>'') ''<ruby>'' \<and> foldsTo (asc ''<rt>'') ''<rt>''
   \<and> foldsTo (asc ''</ruby>'') ''</ruby>''
   \<and> LF \<notin> set (asc ''<rb>K</rb><rp>(</rp>'' @ asc ''k</rt><rp>)</rp>'')
   \<and> LQ \<notin> set (asc ''a'' @ asc ''<rb>K</rb><rp>(</rp>'' @ asc ''k</rt><rp>)</rp>'')
   \<and> RQ \<notin> set (asc ''a'' @ asc ''<rb>K</rb><rp>(</rp>'' @ asc ''k</rt><rp>)</rp>'')
   \<and> freeOf ''<ruby>'' (asc ''a'') (asc ''<RUBY>'')
   \<and> freeOf ''<rt>'' (asc ''<rb>K</rb><rp>(</rp>'') (asc ''<rt>'' @ asc ''k</rt><rp>)</rp>'')
   \<and> freeOf ''</ruby>'' (asc ''<rb>K</rb><rp>(</rp>'' @ asc ''<rt>'' @ asc ''k</rt><rp>)</rp>'')
         (asc ''</ruby>'')
   \<and> rubyToAozora (asc ''a'' @ asc ''<RUBY>'' @ asc ''<rb>K</rb><rp>(</rp>'' @ asc ''<rt>''
         @ asc ''k</rt><rp>)</rp>'' @ asc ''</ruby>'' @ asc ''z'')
       = asc ''a'' @ [BAR] @ asc ''K'' @ [LQ] @ asc ''k'' @ [RQ] @ asc ''z''"
proof -
  have h1: "foldsTo (asc ''<RUBY>'') ''<ruby>''" by (simp add: span_defs asc_def)
  have h2: "foldsTo (asc ''<rt>'') ''<rt>''" by (simp add: span_defs asc_def)
  have h3: "foldsTo (asc ''</ruby>'') ''</ruby>''" by (simp add: span_defs asc_def)
  have h4: "LF \<notin> set (asc ''<rb>K</rb><rp>(</rp>'' @ asc ''k</rt><rp>)</rp>'')"
    by (simp add: asc_def LF_def)
  have h5: "LQ \<notin> set (asc ''a'' @ asc ''<rb>K</rb><rp>(</rp>'' @ asc ''k</rt><rp>)</rp>'')"
    by (simp add: asc_def LQ_def)
  have h6: "RQ \<notin> set (asc ''a'' @ asc ''<rb>K</rb><rp>(</rp>'' @ asc ''k</rt><rp>)</rp>'')"
    by (simp add: asc_def RQ_def)
  have h7: "freeOf ''<ruby>'' (asc ''a'') (asc ''<RUBY>'')"
    by (simp add: asc_def fold_orbit_def)
  have h8: "freeOf ''<rt>'' (asc ''<rb>K</rb><rp>(</rp>'') (asc ''<rt>'' @ asc ''k</rt><rp>)</rp>'')"
    by (simp add: asc_def fold_orbit_def)
  have h9: "freeOf ''</ruby>'' (asc ''<rb>K</rb><rp>(</rp>'' @ asc ''<rt>'' @ asc ''k</rt><rp>)</rp>'')
         (asc ''</ruby>'')"
    by (simp add: asc_def fold_orbit_def)
  have b: "deleteTag (beforeRp (asc ''<rb>K</rb><rp>(</rp>'')) = asc ''K''"
    by (simp add: beforeRp_def re_defs conv_defs)
  have g: "deleteTag (beforeRp (asc ''k</rt><rp>)</rp>'')) = asc ''k''"
    by (simp add: beforeRp_def re_defs conv_defs)
  have z: "rubyToAozora (asc ''z'') = asc ''z''"
    by (simp add: re_defs conv_defs)
  from ruby_span_converted [OF h1 h2 h3 h4 h5 h6 h7 h8 h9, of "asc ''z''"] h1 h2 h3 h4 h5 h6 h7 h8 h9
  show ?thesis unfolding b g z by simp
qed

text \<open>
  Counterexample to C6 as it is stated: a span with a line feed in its base is left as it
  is, and a quote mark U+300A in the base comes out as U+226A.
\<close>

theorem ruby_span_with_line_feed_kept:
  "rubyToAozora (asc ''<ruby>a'' @ [LF] @ asc ''b<rt>c</rt></ruby>'')
     = asc ''<ruby>a'' @ [LF] @ asc ''b<rt>c</rt></ruby>''
   \<and> rubyToAozora (asc ''<ruby>'' @ [LQ] @ asc ''<rt>c</rt></ruby>'')
     = [BAR, LQ2, LQ] @ asc ''c'' @ [RQ]"
proof -
  have a: "rubyToAozora (asc ''<ruby>a'' @ [LF] @ asc ''b<rt>c</rt></ruby>'')
     = asc ''<ruby>a'' @ [LF] @ asc ''b<rt>c</rt></ruby>''"
    by (simp add: re_defs conv_defs)
  have b: "rubyToAozora (asc ''<ruby>'' @ [LQ] @ asc ''<rt>c</rt></ruby>'')
     = [BAR, LQ2, LQ] @ asc ''c'' @ [RQ]"
    by (simp add: re_defs conv_defs)
  show ?thesis using a b by simp
qed

section \<open>Traces of the orchestrator\<close>

text \<open>
  The results of the calls of \<open>ScrapeChapterWithHTML\<close> in a trace, in the order of the
  calls: \<open>True\<close> for a chapter that was fetched, \<open>False\<close> for a failure.
\<close>

fun fetchOutcomes :: "event list \<Rightarrow> bool list" where
  "fetchOutcomes [] = []"
| "fetchOutcomes (Fetch u ok # es) = ok # fetchOutcomes es"
| "fetchOutcomes (e # es) = fetchOutcomes es"

lemma fetchOutcomes_append [simp]:
  "fetchOutcomes (a @ b) = fetchOutcomes a @ fetchOutcomes b"
  by (induction a rule: fetchOutcomes.induct) auto


lemma trace_tick [simp]: "trace (tick w) = trace w"
  by (simp add: tick_def)




lemma clock_emit [simp]: "clock (emit e w) = clock w"
  by (simp add: emit_def)

lemma files_emit [simp]: "files (emit e w) = files w"
  by (simp add: emit_def)

text \<open>The requests to the outside in a trace: the fetches and the writes.\<close>

fun isRequest :: "event \<Rightarrow> bool" where
  "isRequest (Fetch u ok) = True"
| "isRequest (Write p t) = True"
| "isRequest e = False"

text \<open>The chapters that a trace reports as skipped: number and title.\<close>

fun skipLogs :: "event list \<Rightarrow> (nat \<times> str) list" where
  "skipLogs [] = []"
| "skipLogs (Log (LogSkip n t) # es) = (n, t) # skipLogs es"
| "skipLogs (e # es) = skipLogs es"

lemma skipLogs_append [simp]: "skipLogs (a @ b) = skipLogs a @ skipLogs b"
  by (induction a rule: skipLogs.induct) auto

text \<open>The events of a chapter that is skipped.\<close>

definition skipEvents :: "nat \<Rightarrow> nat \<Rightarrow> ChapterInfo \<Rightarrow> event list" where
  "skipEvents n i ch =
     [Progress80 i n, ProgressText (PTCount i n), Log (LogSkip (i + 1) (cTitle ch))]"

lemma processChapter_skip:
  assumes "shouldSkipEpisode env (world st) (savePath cx)
             (generateFileName (novelCode cx) (episodeNumberOf i ch)) (episodeNumberOf i ch)
             (createHtml cx) (createTxt cx)"
  shows "processChapter env cx i ch st
           = (None, st\<lparr>world := (world st)\<lparr>trace := trace (world st)
                                      @ skipEvents (totalChapters cx) i ch\<rparr>\<rparr>)"
proof -
  have "shouldSkipEpisode env
          (emit (ProgressText (PTCount i (totalChapters cx)))
             (emit (Progress80 i (totalChapters cx)) (world st)))
          (savePath cx) (generateFileName (novelCode cx) (episodeNumberOf i ch))
          (episodeNumberOf i ch) (createHtml cx) (createTxt cx)"
    using assms by (simp add: shouldSkipEpisode_def isFileAlreadySaved_def)
  then show ?thesis
    by (simp add: processChapter_def Let_def emit_def skipEvents_def)
qed

text \<open>
  How the loop handles the chapters of a run, told from what the world answers and not
  from what the loop records: a chapter is skipped when \<open>shouldSkipEpisode\<close> holds in
  the state in which the loop reaches it, and is fetched otherwise, with the answer of
  \<open>ScrapeChapterWithHTML\<close> to the call for its URL at that moment (\<open>None\<close> for a
  chapter that is delivered, \<open>Some e\<close> for a failure with the error \<open>e\<close>). The list
  ends with the chapter at which the loop stops.
\<close>

datatype handling = Skipped | Fetched "err option"

definition skips :: "env \<Rightarrow> loopCtx \<Rightarrow> nat \<Rightarrow> ChapterInfo \<Rightarrow> loopState \<Rightarrow> bool" where
  "skips env cx i chapter st =
     shouldSkipEpisode env (world st) (savePath cx)
       (generateFileName (novelCode cx) (episodeNumberOf i chapter)) (episodeNumberOf i chapter)
       (createHtml cx) (createTxt cx)"

definition answer :: "env \<Rightarrow> ChapterInfo \<Rightarrow> loopState \<Rightarrow> err option" where
  "answer env chapter st =
     (case ScrapeChapterWithHTML env (clock (world st)) (cURL chapter) of
        Inl e \<Rightarrow> Some e
      | Inr r \<Rightarrow> None)"

fun handlings :: "env \<Rightarrow> loopCtx \<Rightarrow> nat \<Rightarrow> ChapterInfo list \<Rightarrow> loopState \<Rightarrow> handling list" where
  "handlings env cx i [] st = []"
| "handlings env cx i (chapter # rest) st =
     (if skips env cx i chapter st then Skipped else Fetched (answer env chapter st))
       # (case processChapter env cx i chapter st of
            (Some e, st1) \<Rightarrow> []
          | (None, st1) \<Rightarrow> handlings env cx (Suc i) rest st1)"

fun answers :: "handling list \<Rightarrow> err option list" where
  "answers [] = []"
| "answers (Skipped # hs) = answers hs"
| "answers (Fetched a # hs) = a # answers hs"

definition oks :: "handling list \<Rightarrow> bool list" where
  "oks hs = map (\<lambda>a. a = None) (answers hs)"


lemma answers_append [simp]: "answers (a @ b) = answers a @ answers b"
  by (induction a rule: answers.induct) auto

lemma oks_simps [simp]:
  "oks [] = []"
  "oks (Skipped # hs) = oks hs"
  "oks (Fetched a # hs) = (a = None) # oks hs"
  by (simp_all add: oks_def)








text \<open>The context and the first state of the loop in \<open>downloadRensai\<close>.\<close>

definition runCtx :: "str \<Rightarrow> ScrapeResult \<Rightarrow> bool \<Rightarrow> bool \<Rightarrow> str \<Rightarrow> str \<Rightarrow> loopCtx" where
  "runCtx sp res ch ct enc le =
     \<lparr>savePath = sp, result = res, createHtml = ch, createTxt = ct, encoding = enc,
      lineEnding = le, totalChapters = length (Chapters res),
      novelCode = (case Chapters res of [] \<Rightarrow> []
                   | first # others \<Rightarrow> extractNovelCodeFromURL (cURL first))\<rparr>"

definition runState :: "ScrapeResult \<Rightarrow> world \<Rightarrow> loopState" where
  "runState res w =
     \<lparr>failedChapters = 0, allChapterContents = [], chapters = Chapters res,
      world = emit (ProgressText (PTCount 0 (length (Chapters res))))
                (emit (Log (LogStart (length (Chapters res)))) w)\<rparr>"

definition runHandlings ::
  "env \<Rightarrow> str \<Rightarrow> ScrapeResult \<Rightarrow> bool \<Rightarrow> bool \<Rightarrow> str \<Rightarrow> str \<Rightarrow> world \<Rightarrow> handling list" where
  "runHandlings env sp res ch ct enc le w =
     handlings env (runCtx sp res ch ct enc le) 0 (Chapters res) (runState res w)"







lemma rensaiLoop_all_skipped:
  assumes "\<not> createHtml cx" "\<not> createTxt cx"
  shows "rensaiLoop env cx i chs st
           = (None, st\<lparr>world := (world st)\<lparr>trace := trace (world st)
                @ concat (map (\<lambda>(j, c). skipEvents (totalChapters cx) j c) (enumerate i chs))\<rparr>\<rparr>)"
proof (induction chs arbitrary: i st)
  case Nil
  then show ?case by simp
next
  case (Cons ch chs)
  have "shouldSkipEpisode env (world st) (savePath cx)
             (generateFileName (novelCode cx) (episodeNumberOf i ch)) (episodeNumberOf i ch)
             (createHtml cx) (createTxt cx)"
    using assms by (simp add: shouldSkipEpisode_def isFileAlreadySaved_def)
  from processChapter_skip [OF this] show ?case
    by (simp add: Cons.IH)
qed

lemma requests_skipEvents:
  "filter isRequest (concat (map (\<lambda>(j, c). skipEvents n j c) xs)) = []"
  by (induction xs) (auto simp: skipEvents_def)

lemma skipLogs_skipEvents:
  "skipLogs (concat (map (\<lambda>(j, c). skipEvents n j c) xs))
     = map (\<lambda>(j, c). (j + 1, cTitle c)) xs"
  by (induction xs) (auto simp: skipEvents_def)

lemma requests_skipEvents1: "filter isRequest (skipEvents n i c) = []"
  by (simp add: skipEvents_def)

lemma skipLogs_skipEvents1: "skipLogs (skipEvents n i c) = [(i + 1, cTitle c)]"
  by (simp add: skipEvents_def)

subsection \<open>An environment for the examples\<close>

text \<open>
  Paths are joined with a slash, every write succeeds and the text of a chapter is
  written as it is. The chapters are fetched by \<open>scrapeFail\<close>, which always fails, or
  by \<open>scrapeOk\<close>, which always succeeds.
\<close>

definition joinSlash :: "str list \<Rightarrow> str" where
  "joinSlash ps = joinWith (asc ''/'') ps"

definition exEnv :: "(nat \<Rightarrow> str \<Rightarrow> err + (str \<times> str \<times> str)) \<Rightarrow> env" where
  "exEnv scrape =
     \<lparr>Join = joinSlash, ScrapeChapterWithHTML = scrape, WriteFile = (\<lambda>n p. None),
      ShiftJIS = (\<lambda>c. None), formatChapterContent = (\<lambda>t a c body. body),
      formatChapterContentForCombined = (\<lambda>c body. body), convertRubyToAozora = (\<lambda>t. t)\<rparr>"

definition exChapter :: "str \<Rightarrow> str \<Rightarrow> ChapterInfo" where
  "exChapter title url =
     \<lparr>cTitle = title, cURL = url, cContent = [], cRawHTML = [], cFullPageHTML = [],
      cRetryCount = 0, cFailed = False\<rparr>"

definition exResult :: "ChapterInfo list \<Rightarrow> ScrapeResult" where
  "exResult chs =
     \<lparr>PageType = asc ''rensai'', Title = asc ''T'', Author = asc ''A'', RawHTML = [],
      TextContent = [], FullPageHTML = [], IndexPagesHTML = [], Chapters = chs, Error = []\<rparr>"

definition exWorld :: "str set \<Rightarrow> world" where
  "exWorld fs = \<lparr>files = fs, clock = 0, trace = []\<rparr>"

definition scrapeFail :: "nat \<Rightarrow> str \<Rightarrow> err + (str \<times> str \<times> str)" where
  "scrapeFail n url = Inl (External (asc ''timeout''))"

definition scrapeOk :: "nat \<Rightarrow> str \<Rightarrow> err + (str \<times> str \<times> str)" where
  "scrapeOk n url = Inr (asc ''text'', asc ''<p>text</p>'', asc ''<html></html>'')"

definition exCtx :: "bool \<Rightarrow> bool \<Rightarrow> ChapterInfo list \<Rightarrow> loopCtx" where
  "exCtx html txt chs =
     \<lparr>savePath = asc ''out'', result = exResult chs, createHtml = html, createTxt = txt,
      encoding = asc ''UTF-8'', lineEnding = asc ''LF'', totalChapters = length chs,
      novelCode = asc ''N1A''\<rparr>"

definition exState :: "str set \<Rightarrow> ChapterInfo list \<Rightarrow> loopState" where
  "exState fs chs =
     \<lparr>failedChapters = 0, allChapterContents = [], chapters = chs, world = exWorld fs\<rparr>"

text \<open>
  \<open>scrapeExcept bad\<close> delivers every chapter but those of the URLs in \<open>bad\<close>; a
  serial of five chapters.
\<close>

definition scrapeExcept :: "str list \<Rightarrow> nat \<Rightarrow> str \<Rightarrow> err + (str \<times> str \<times> str)" where
  "scrapeExcept bad n url =
     (if url \<in> set bad then Inl (External (asc ''timeout''))
      else Inr (asc ''text'', asc ''<p>text</p>'', asc ''<html></html>''))"

definition exFive :: ScrapeResult where
  "exFive = exResult
     [exChapter (asc ''c1'') (asc ''/n1a/1/''), exChapter (asc ''c2'') (asc ''/n1a/2/''),
      exChapter (asc ''c3'') (asc ''/n1a/3/''), exChapter (asc ''c4'') (asc ''/n1a/4/''),
      exChapter (asc ''c5'') (asc ''/n1a/5/'')]"

lemmas orch_defs = downloadRensai_def processChapter_def episodeNumberOf_def
  extractEpisodeNumberFromURL_def extractNovelCodeFromURL_def episodePattern_def
  novelCodePattern_def generateFileName_def shouldSkipEpisode_def isFileAlreadySaved_def
  saveTextFileWithRetry_def saveRetryLoop.simps saveTextFile_def maxRetries_def maxFailures_def
  emit_def tick_def ToUpper_def isDigit_def isLower_def showNat.simps
  joinSlash_def exEnv_def exChapter_def exResult_def exWorld_def scrapeFail_def scrapeOk_def
  exCtx_def exState_def

section \<open>C7: the circuit breaker\<close>

lemmas run_defs = runHandlings_def runCtx_def runState_def skips_def answer_def
  scrapeExcept_def exFive_def




text \<open>
  Two runs on the five chapters. When the failures are the first, the second and the
  fourth chapter, the run goes through: the third chapter set the counter to zero. When
  they are the second, the third and the fourth, the run stops there and the fifth
  chapter is not fetched.
\<close>

lemma failures_apart_do_not_stop:
  "answers (runHandlings (exEnv (scrapeExcept [asc ''/n1a/1/'', asc ''/n1a/2/'', asc ''/n1a/4/'']))
              (asc ''out'') exFive False True (asc ''UTF-8'') (asc ''LF'') (exWorld {}))
     = [Some (External (asc ''timeout'')), Some (External (asc ''timeout'')), None,
        Some (External (asc ''timeout'')), None]
   \<and> fst (downloadRensai (exEnv (scrapeExcept [asc ''/n1a/1/'', asc ''/n1a/2/'', asc ''/n1a/4/'']))
            (asc ''out'') exFive False True (asc ''UTF-8'') (asc ''LF'') False (exWorld {}))
       = None"
  by (simp add: run_defs orch_defs re_defs)

lemma three_failures_after_a_success_stop:
  "fst (downloadRensai (exEnv (scrapeExcept [asc ''/n1a/2/'', asc ''/n1a/3/'', asc ''/n1a/4/'']))
            (asc ''out'') exFive False True (asc ''UTF-8'') (asc ''LF'') False (exWorld {}))
       = Some (FetchLimit 3 (External (asc ''timeout'')))
   \<and> fetchOutcomes (trace (snd (downloadRensai
          (exEnv (scrapeExcept [asc ''/n1a/2/'', asc ''/n1a/3/'', asc ''/n1a/4/'']))
            (asc ''out'') exFive False True (asc ''UTF-8'') (asc ''LF'') False (exWorld {}))))
       = [True, False, False, False]"
  by (simp add: run_defs orch_defs re_defs)

section \<open>C9: skip detection\<close>

text \<open>
  The skip as the code has it. When every file that the check asks for exists for a
  chapter, that is the text file \<^verbatim>\<open>{workCode}-{episodeNumber}.txt\<close> if \<open>createTxt\<close>
  and the file \<^verbatim>\<open>html/{episodeNumber}.html\<close> if \<open>createHtml\<close>, the loop reports the
  progress and the skip of the chapter, fetches nothing, changes nothing else, and goes
  on with the next chapter.
\<close>

lemma skip_when_files_exist:
  assumes "createHtml cx \<longrightarrow>
             Join env [savePath cx, asc ''html'', episodeNumberOf i ch @ asc ''.html'']
               \<in> files (world st)"
      and "createTxt cx \<longrightarrow>
             Join env [savePath cx,
                       generateFileName (novelCode cx) (episodeNumberOf i ch) @ asc ''.txt'']
               \<in> files (world st)"
  shows "rensaiLoop env cx i (ch # rest) st
           = rensaiLoop env cx (Suc i) rest
               (st\<lparr>world := (world st)\<lparr>trace := trace (world st)
                    @ [Progress80 i (totalChapters cx), ProgressText (PTCount i (totalChapters cx)),
                       Log (LogSkip (i + 1) (cTitle ch))]\<rparr>\<rparr>)"
proof -
  have "shouldSkipEpisode env (world st) (savePath cx)
             (generateFileName (novelCode cx) (episodeNumberOf i ch)) (episodeNumberOf i ch)
             (createHtml cx) (createTxt cx)"
    using assms by (simp add: shouldSkipEpisode_def isFileAlreadySaved_def)
  from processChapter_skip [OF this] show ?thesis
    by (simp add: skipEvents_def)
qed

text \<open>
  An instance: the text file of the only chapter exists and no HTML file is asked for;
  the loop ends after the three events of the skip.
\<close>

lemma skip_when_files_exist_example:
  "\<not> createHtml (exCtx False True [exChapter (asc ''c1'') (asc ''/n1a/1/'')])
   \<and> Join (exEnv scrapeOk)
        [savePath (exCtx False True [exChapter (asc ''c1'') (asc ''/n1a/1/'')]),
         generateFileName (novelCode (exCtx False True [exChapter (asc ''c1'') (asc ''/n1a/1/'')]))
           (episodeNumberOf 0 (exChapter (asc ''c1'') (asc ''/n1a/1/''))) @ asc ''.txt'']
      \<in> files (world (exState {asc ''out/N1A-1.txt''} [exChapter (asc ''c1'') (asc ''/n1a/1/'')]))
   \<and> rensaiLoop (exEnv scrapeOk) (exCtx False True [exChapter (asc ''c1'') (asc ''/n1a/1/'')]) 0
        [exChapter (asc ''c1'') (asc ''/n1a/1/'')]
        (exState {asc ''out/N1A-1.txt''} [exChapter (asc ''c1'') (asc ''/n1a/1/'')])
      = (None, (exState {asc ''out/N1A-1.txt''} [exChapter (asc ''c1'') (asc ''/n1a/1/'')])
           \<lparr>world := (exWorld {asc ''out/N1A-1.txt''})
              \<lparr>trace := [Progress80 0 1, ProgressText (PTCount 0 1),
                         Log (LogSkip 1 (asc ''c1''))]\<rparr>\<rparr>)"
proof -
  have h1: "\<not> createHtml (exCtx False True [exChapter (asc ''c1'') (asc ''/n1a/1/'')])"
    by (simp add: exCtx_def)
  have h2: "Join (exEnv scrapeOk)
        [savePath (exCtx False True [exChapter (asc ''c1'') (asc ''/n1a/1/'')]),
         generateFileName (novelCode (exCtx False True [exChapter (asc ''c1'') (asc ''/n1a/1/'')]))
           (episodeNumberOf 0 (exChapter (asc ''c1'') (asc ''/n1a/1/''))) @ asc ''.txt'']
      \<in> files (world (exState {asc ''out/N1A-1.txt''} [exChapter (asc ''c1'') (asc ''/n1a/1/'')]))"
    by (simp add: orch_defs re_defs)
  from skip_when_files_exist
         [of "exCtx False True [exChapter (asc ''c1'') (asc ''/n1a/1/'')]" "exEnv scrapeOk" 0
             "exChapter (asc ''c1'') (asc ''/n1a/1/'')"
             "exState {asc ''out/N1A-1.txt''} [exChapter (asc ''c1'') (asc ''/n1a/1/'')]" "[]"]
       h1 h2
  show ?thesis
    by (simp add: exState_def exWorld_def exCtx_def exChapter_def)
qed

text \<open>
  C9 (the code departs from it). The claim: a chapter whose output file
  \<^verbatim>\<open>{workCode}-{episodeNumber}.txt\<close> exists is skipped and not fetched again. With
  \<open>createHtml\<close> set, which is the default and what the user interface always sends,
  the check also asks for \<^verbatim>\<open>html/{episodeNumber}.html\<close>. No run writes that file: the
  lines of \<open>downloadRensai\<close> that did are commented out, and the model has no such write.
  So the chapter is not skipped: the loop handles it as fetched, and the run calls
  \<open>ScrapeChapterWithHTML\<close> for it. A first run in an empty directory leaves the text
  file of the chapter, and a second run from there fetches the chapter again.
\<close>

theorem existing_txt_chapter_fetched_again:
  "joinSlash [asc ''out'',
              generateFileName (extractNovelCodeFromURL (asc ''/n1a/1/''))
                (episodeNumberOf 0 (exChapter (asc ''c1'') (asc ''/n1a/1/''))) @ asc ''.txt'']
     \<in> files (exWorld {asc ''out/N1A-1.txt''})
   \<and> runHandlings (exEnv scrapeOk) (asc ''out'')
          (exResult [exChapter (asc ''c1'') (asc ''/n1a/1/'')])
          True True (asc ''UTF-8'') (asc ''LF'') (exWorld {asc ''out/N1A-1.txt''})
       = [Fetched None]
   \<and> fetchOutcomes (trace (snd (downloadRensai (exEnv scrapeOk) (asc ''out'')
          (exResult [exChapter (asc ''c1'') (asc ''/n1a/1/'')])
          True True (asc ''UTF-8'') (asc ''LF'') False (exWorld {asc ''out/N1A-1.txt''}))))
       = [True]
   \<and> files (snd (downloadRensai (exEnv scrapeOk) (asc ''out'')
          (exResult [exChapter (asc ''c1'') (asc ''/n1a/1/'')])
          True True (asc ''UTF-8'') (asc ''LF'') False (exWorld {})))
       = {asc ''out/N1A-1.txt''}
   \<and> fetchOutcomes (trace (snd (downloadRensai (exEnv scrapeOk) (asc ''out'')
          (exResult [exChapter (asc ''c1'') (asc ''/n1a/1/'')])
          True True (asc ''UTF-8'') (asc ''LF'') False
          (snd (downloadRensai (exEnv scrapeOk) (asc ''out'')
             (exResult [exChapter (asc ''c1'') (asc ''/n1a/1/'')])
             True True (asc ''UTF-8'') (asc ''LF'') False (exWorld {}))))))
       = [True, True]"
proof -
  have a: "joinSlash [asc ''out'',
              generateFileName (extractNovelCodeFromURL (asc ''/n1a/1/''))
                (episodeNumberOf 0 (exChapter (asc ''c1'') (asc ''/n1a/1/''))) @ asc ''.txt'']
     \<in> files (exWorld {asc ''out/N1A-1.txt''})"
    by (simp add: orch_defs re_defs)
  have b: "runHandlings (exEnv scrapeOk) (asc ''out'')
          (exResult [exChapter (asc ''c1'') (asc ''/n1a/1/'')])
          True True (asc ''UTF-8'') (asc ''LF'') (exWorld {asc ''out/N1A-1.txt''})
       = [Fetched None]"
    by (simp add: run_defs orch_defs re_defs)
  have c: "fetchOutcomes (trace (snd (downloadRensai (exEnv scrapeOk) (asc ''out'')
          (exResult [exChapter (asc ''c1'') (asc ''/n1a/1/'')])
          True True (asc ''UTF-8'') (asc ''LF'') False (exWorld {asc ''out/N1A-1.txt''}))))
       = [True]"
    by (simp add: orch_defs re_defs)
  have d: "downloadRensai (exEnv scrapeOk) (asc ''out'')
          (exResult [exChapter (asc ''c1'') (asc ''/n1a/1/'')])
          True True (asc ''UTF-8'') (asc ''LF'') False (exWorld {})
       = (None, \<lparr>files = {asc ''out/N1A-1.txt''}, clock = 2,
                 trace = [Log (LogStart 1), ProgressText (PTCount 0 1), Progress80 0 1,
                          ProgressText (PTCount 0 1), Log (LogFetching 1 (asc ''c1'')),
                          Fetch (asc ''/n1a/1/'') True, Write (asc ''out/N1A-1.txt'') (asc ''text''),
                          Progress 100, ProgressText (PTDone 1 1), Log LogDone]\<rparr>)"
    by (simp add: orch_defs re_defs)
  have e: "fetchOutcomes (trace (snd (downloadRensai (exEnv scrapeOk) (asc ''out'')
          (exResult [exChapter (asc ''c1'') (asc ''/n1a/1/'')])
          True True (asc ''UTF-8'') (asc ''LF'') False
          \<lparr>files = {asc ''out/N1A-1.txt''}, clock = 2,
                 trace = [Log (LogStart 1), ProgressText (PTCount 0 1), Progress80 0 1,
                          ProgressText (PTCount 0 1), Log (LogFetching 1 (asc ''c1'')),
                          Fetch (asc ''/n1a/1/'') True, Write (asc ''out/N1A-1.txt'') (asc ''text''),
                          Progress 100, ProgressText (PTDone 1 1), Log LogDone]\<rparr>)))
       = [True, True]"
    by (simp add: orch_defs re_defs)
  show ?thesis using a b c e unfolding d by simp
qed

section \<open>C10: no output asked for\<close>

text \<open>
  C10. With \<open>createHtml\<close> and \<open>createTxt\<close> both false, \<open>shouldSkipEpisode\<close> is true
  for every chapter, save path and world. A run of \<open>downloadRensai\<close> then makes no fetch
  and no write and leaves the files as they are, it reports every chapter as skipped,
  in order, and it ends without an error unless there is no chapter at all.
\<close>

theorem no_outputs_wanted_skips_all:
  "shouldSkipEpisode env w0 sp fileName episodeNumber False False
   \<and> fst (downloadRensai env sp res False False enc le comb w)
       = (if Chapters res = [] then Some NoEpisodes else None)
   \<and> filter isRequest (trace (snd (downloadRensai env sp res False False enc le comb w)))
       = filter isRequest (trace w)
   \<and> files (snd (downloadRensai env sp res False False enc le comb w)) = files w
   \<and> skipLogs (trace (snd (downloadRensai env sp res False False enc le comb w)))
       = skipLogs (trace w) @ map (\<lambda>(j, c). (j + 1, cTitle c)) (enumerate 0 (Chapters res))"
proof (cases "Chapters res")
  case Nil
  then show ?thesis
    by (simp add: downloadRensai_def shouldSkipEpisode_def isFileAlreadySaved_def)
next
  case (Cons first others)
  show ?thesis
    unfolding downloadRensai_def Cons list.case Let_def
    by (simp add: rensaiLoop_all_skipped requests_skipEvents skipLogs_skipEvents emit_def
          shouldSkipEpisode_def isFileAlreadySaved_def requests_skipEvents1 skipLogs_skipEvents1
          del: rensaiLoop.simps)
qed

text \<open>An instance of C10: two chapters, both reported as skipped, no request made.\<close>

theorem no_outputs_wanted_skips_all_witness:
  "fst (downloadRensai (exEnv scrapeOk) (asc ''out'')
          (exResult [exChapter (asc ''c1'') (asc ''/n1a/1/''), exChapter (asc ''c2'') (asc ''/n1a/2/'')])
          False False (asc ''UTF-8'') (asc ''LF'') True (exWorld {})) = None
   \<and> filter isRequest (trace (snd (downloadRensai (exEnv scrapeOk) (asc ''out'')
          (exResult [exChapter (asc ''c1'') (asc ''/n1a/1/''), exChapter (asc ''c2'') (asc ''/n1a/2/'')])
          False False (asc ''UTF-8'') (asc ''LF'') True (exWorld {})))) = []
   \<and> skipLogs (trace (snd (downloadRensai (exEnv scrapeOk) (asc ''out'')
          (exResult [exChapter (asc ''c1'') (asc ''/n1a/1/''), exChapter (asc ''c2'') (asc ''/n1a/2/'')])
          False False (asc ''UTF-8'') (asc ''LF'') True (exWorld {}))))
       = [(1, asc ''c1''), (2, asc ''c2'')]"
  using no_outputs_wanted_skips_all
          [of "exEnv scrapeOk" "exWorld {}" "asc ''out''" "[]" "[]"
              "exResult [exChapter (asc ''c1'') (asc ''/n1a/1/''),
                         exChapter (asc ''c2'') (asc ''/n1a/2/'')]"
              "asc ''UTF-8''" "asc ''LF''" True "exWorld {}"]
  by (simp add: exResult_def exWorld_def exChapter_def)

end
